theory Spec2Isabelle
  imports Complex_Main "HOL-Library.Word"
begin

section \<open>Workers, lockable objects and the statements of the lock operations\<close>

text \<open>
  The benchmark drives one low-priority and one high-priority worker thread against one
  \<^verbatim>\<open>PriorityMutex\<close> object. The four classes of \<^verbatim>\<open>main.cpp\<close> are built from five kinds of
  statement only: locking and unlocking a \<^verbatim>\<open>std::mutex\<close> or a \<^verbatim>\<open>std::unique_lock\<close>,
  assigning a boolean member, \<^verbatim>\<open>cv_.wait(lock, pred)\<close> and \<^verbatim>\<open>cv_.notify_all()\<close>. Each member
  function is transcribed as the list of its statements, in source order, and one
  interpreter gives the statements their meaning for every class.
\<close>

datatype thread = Low | High

text \<open>
  The lockable members: \<^verbatim>\<open>mutex_\<close> of \<^verbatim>\<open>BasicPriorityMutex\<close>, \<^verbatim>\<open>dataMutex_\<close> and
  \<^verbatim>\<open>nextToAccessMutex_\<close>, and the two \<^verbatim>\<open>unique_lock<mutex>\<close> members \<^verbatim>\<open>lowPriorityLock_\<close>
  and \<^verbatim>\<open>highPriorityLock_\<close>, both constructed as \<^verbatim>\<open>{dataMutex_, defer_lock}\<close>: two handles
  on the one mutex, neither locking it at construction.
\<close>

datatype lockable = Mutex | DataMutex | NextToAccessMutex | LowPriorityLock | HighPriorityLock

text \<open>
  \<open>mutex_of l\<close> is the \<^verbatim>\<open>std::mutex\<close> a lock, unlock or wait through \<open>l\<close> operates on: the
  mutex itself, or the mutex a \<^verbatim>\<open>unique_lock\<close> wraps. A \<^verbatim>\<open>unique_lock\<close> is more than a name
  for its mutex: it records in its own flag (\<^verbatim>\<open>owns_lock()\<close>) whether it has locked the
  mutex, and the state below keeps that flag for each of the two handles.
\<close>

fun mutex_of :: "lockable \<Rightarrow> lockable" where
  "mutex_of LowPriorityLock = DataMutex"
| "mutex_of HighPriorityLock = DataMutex"
| "mutex_of Mutex = Mutex"
| "mutex_of DataMutex = DataMutex"
| "mutex_of NextToAccessMutex = NextToAccessMutex"

fun is_handle :: "lockable \<Rightarrow> bool" where
  "is_handle LowPriorityLock = True"
| "is_handle HighPriorityLock = True"
| "is_handle Mutex = False"
| "is_handle DataMutex = False"
| "is_handle NextToAccessMutex = False"

text \<open>The boolean members: \<^verbatim>\<open>waiting_\<close>, \<^verbatim>\<open>dataHeld_\<close> and \<^verbatim>\<open>highPriorityWaiting_\<close>.\<close>

datatype var = V_waiting | V_dataHeld | V_highPriorityWaiting

datatype bexp = BVar var | BNot bexp | BOr bexp bexp

fun beval :: "bexp \<Rightarrow> (var \<Rightarrow> bool) \<Rightarrow> bool" where
  "beval (BVar v) m = m v"
| "beval (BNot b) m = (\<not> beval b m)"
| "beval (BOr a b) m = (beval a m \<or> beval b m)"

datatype instr =
    Lock lockable
  | Unlock lockable
  | Assign var bool
  | CvWait lockable bexp
  | NotifyAll

record priority_mutex =
  lockLowPriority :: "instr list"
  unlockLowPriority :: "instr list"
  lockHighPriority :: "instr list"
  unlockHighPriority :: "instr list"

subsection \<open>The four classes\<close>

definition BasicPriorityMutex :: priority_mutex where
  "BasicPriorityMutex = \<lparr>
     lockLowPriority = [Lock Mutex],
     unlockLowPriority = [Unlock Mutex],
     lockHighPriority = [Lock Mutex],
     unlockHighPriority = [Unlock Mutex] \<rparr>"

definition TwoMutexPriorityMutex :: priority_mutex where
  "TwoMutexPriorityMutex = \<lparr>
     lockLowPriority = [Lock NextToAccessMutex, Lock DataMutex, Unlock NextToAccessMutex],
     unlockLowPriority = [Unlock DataMutex],
     lockHighPriority = [Lock NextToAccessMutex, Lock DataMutex, Unlock NextToAccessMutex],
     unlockHighPriority = [Unlock DataMutex] \<rparr>"

definition MutexAndAtomicBoolPriorityMutex :: priority_mutex where
  "MutexAndAtomicBoolPriorityMutex = \<lparr>
     lockLowPriority =
       [Lock LowPriorityLock, CvWait LowPriorityLock (BNot (BVar V_waiting))],
     unlockLowPriority = [Unlock LowPriorityLock, NotifyAll],
     lockHighPriority =
       [Assign V_waiting True, Lock HighPriorityLock, Assign V_waiting False],
     unlockHighPriority = [Unlock HighPriorityLock, NotifyAll] \<rparr>"

text \<open>
  In \<^verbatim>\<open>MutexAndTwoBoolPriorityMutex::lockHighPriority\<close> the source locks
  \<^verbatim>\<open>highPriorityLock_\<close> and then waits with \<^verbatim>\<open>cv_.wait(lowPriorityLock_, ...)\<close>, where its
  sibling \<^verbatim>\<open>lockLowPriority\<close> locks and waits through the same handle. The transcription
  keeps the handle the source names.
\<close>

definition MutexAndTwoBoolPriorityMutex :: priority_mutex where
  "MutexAndTwoBoolPriorityMutex = \<lparr>
     lockLowPriority =
       [Lock LowPriorityLock,
        CvWait LowPriorityLock (BNot (BOr (BVar V_dataHeld) (BVar V_highPriorityWaiting))),
        Assign V_dataHeld True,
        Unlock LowPriorityLock],
     unlockLowPriority =
       [Lock LowPriorityLock, Assign V_dataHeld False, Unlock LowPriorityLock, NotifyAll],
     lockHighPriority =
       [Lock HighPriorityLock,
        Assign V_highPriorityWaiting True,
        CvWait LowPriorityLock (BNot (BVar V_dataHeld)),
        Assign V_dataHeld True,
        Unlock HighPriorityLock],
     unlockHighPriority =
       [Lock HighPriorityLock, Assign V_dataHeld False, Assign V_highPriorityWaiting False,
        Unlock HighPriorityLock, NotifyAll] \<rparr>"

fun lock_prog :: "priority_mutex \<Rightarrow> thread \<Rightarrow> instr list" where
  "lock_prog S Low = lockLowPriority S"
| "lock_prog S High = lockHighPriority S"

fun unlock_prog :: "priority_mutex \<Rightarrow> thread \<Rightarrow> instr list" where
  "unlock_prog S Low = unlockLowPriority S"
| "unlock_prog S High = unlockHighPriority S"

section \<open>The harness run as an interleaving of atomic statements\<close>

text \<open>
  A worker of \<^verbatim>\<open>ContentionTest\<close> loops \<^verbatim>\<open>while (shouldRun_) { lock; work; unlock; }\<close>
  (the high-priority worker sleeps before its lock call; sleeping and the clock have no
  effect on the lock state and are left out). Its control state is
  \<^item> \<open>Idle\<close>: at the loop test;
  \<^item> \<open>InLock is\<close>: inside its lock call, with the statements \<open>is\<close> still to execute;
  \<^item> \<open>Held\<close>: its lock call has returned and its unlock call is not yet made;
  \<^item> \<open>InUnlock is\<close>: inside its unlock call;
  \<^item> \<open>Exited\<close>: it has left the loop (the thread is joinable).
\<close>

datatype control = Idle | InLock "instr list" | Held | InUnlock "instr list" | Exited

text \<open>
  The state of a thread with respect to the condition variable: \<open>Blocked\<close> inside
  \<^verbatim>\<open>wait\<close> with the mutex released, \<open>Woken\<close> once notified (or woken spuriously) and
  about to re-acquire the mutex.
\<close>

datatype wait_status = Running | Blocked | Woken

text \<open>
  The history of lock returns and unlock calls, most recent first. It is written by the
  interpreter and never read by it.
\<close>

datatype history_event = Acquire thread | Release thread

text \<open>
  \<open>owner\<close> gives for each \<^verbatim>\<open>std::mutex\<close> the thread that has it locked; \<open>owns\<close> is the
  \<^verbatim>\<open>owns_lock()\<close> flag of each \<^verbatim>\<open>unique_lock\<close> member (it stays false for a plain mutex).
\<close>

record state =
  owner :: "lockable \<Rightarrow> thread option"
  owns :: "lockable \<Rightarrow> bool"
  vars :: "var \<Rightarrow> bool"
  ctl :: "thread \<Rightarrow> control"
  cvw :: "thread \<Rightarrow> wait_status"
  shouldRun :: bool
  fault :: bool
  history :: "history_event list"

text \<open>
  One statement executed by thread \<open>t\<close>. The result is \<open>None\<close> when the thread cannot
  proceed (the mutex belongs to the other thread); otherwise the new state and whether
  the statement is finished.

  \<^item> \<^verbatim>\<open>l.lock()\<close>: a \<^verbatim>\<open>unique_lock\<close> whose flag is already set throws; locking a mutex the
    thread already owns is undefined; otherwise the thread blocks until the mutex is
    free, takes it, and a \<^verbatim>\<open>unique_lock\<close> sets its flag.
  \<^item> \<^verbatim>\<open>l.unlock()\<close>: a \<^verbatim>\<open>unique_lock\<close> whose flag is not set throws; unlocking a mutex the
    thread does not own is undefined; otherwise the mutex is released and the flag
    cleared.
  \<^item> \<^verbatim>\<open>cv_.wait(l, pred)\<close> requires \<^verbatim>\<open>l.owns_lock()\<close> and that the calling thread has locked
    \<^verbatim>\<open>l.mutex()\<close>; a call that violates this is undefined. Otherwise it is
    \<^verbatim>\<open>while (!pred()) wait(l);\<close>: if the predicate holds the statement is finished; if not,
    the thread executes \<^verbatim>\<open>l.unlock()\<close> and blocks, and the statement is executed again after
    it has been woken and has executed \<^verbatim>\<open>l.lock()\<close>.

  An exception thrown here is caught nowhere in the program. Every throwing or undefined
  case sets \<open>fault\<close> and leaves the rest of the state and the control point of the thread
  as they are; a state with \<open>fault\<close> set has no successor (see \<open>exec\<close> below), since the
  source gives the program no defined behaviour from there on.
\<close>

fun exec_instr :: "thread \<Rightarrow> instr \<Rightarrow> state \<Rightarrow> (bool \<times> state) option" where
  "exec_instr t (Lock l) s =
     (if is_handle l \<and> owns s l then Some (False, s\<lparr>fault := True\<rparr>)
      else case owner s (mutex_of l) of
        None \<Rightarrow> Some (True, s\<lparr>owner := (owner s)(mutex_of l := Some t),
                               owns := (owns s)(l := is_handle l)\<rparr>)
      | Some u \<Rightarrow> if u = t then Some (False, s\<lparr>fault := True\<rparr>) else None)"
| "exec_instr t (Unlock l) s =
     (if (is_handle l \<longrightarrow> owns s l) \<and> owner s (mutex_of l) = Some t
      then Some (True, s\<lparr>owner := (owner s)(mutex_of l := None),
                          owns := (owns s)(l := False)\<rparr>)
      else Some (False, s\<lparr>fault := True\<rparr>))"
| "exec_instr t (Assign v b) s = Some (True, s\<lparr>vars := (vars s)(v := b)\<rparr>)"
| "exec_instr t (CvWait l p) s =
     (if \<not> ((is_handle l \<longrightarrow> owns s l) \<and> owner s (mutex_of l) = Some t)
      then Some (False, s\<lparr>fault := True\<rparr>)
      else if beval p (vars s) then Some (True, s)
      else Some (False, s\<lparr>owner := (owner s)(mutex_of l := None),
                           owns := (owns s)(l := False),
                           cvw := (cvw s)(t := Blocked)\<rparr>))"
| "exec_instr t NotifyAll s =
     Some (True, s\<lparr>cvw := (\<lambda>u. if cvw s u = Blocked then Woken else cvw s u)\<rparr>)"

definition exec_body :: "thread \<Rightarrow> instr \<Rightarrow> control \<Rightarrow> state \<Rightarrow> state option" where
  "exec_body t i k s =
     (case exec_instr t i s of
        None \<Rightarrow> None
      | Some (finished, s') \<Rightarrow> Some (if finished then s'\<lparr>ctl := (ctl s')(t := k)\<rparr> else s'))"

fun current_instr :: "control \<Rightarrow> instr option" where
  "current_instr (InLock (i # is)) = Some i"
| "current_instr (InUnlock (i # is)) = Some i"
| "current_instr c = None"

text \<open>
  A woken thread executes the \<^verbatim>\<open>l.lock()\<close> of the wait it is in: it throws if the flag of
  \<open>l\<close> is set, and otherwise blocks until the mutex is free.
\<close>

definition reacquire :: "thread \<Rightarrow> state \<Rightarrow> state option" where
  "reacquire t s =
     (case current_instr (ctl s t) of
        Some (CvWait l p) \<Rightarrow>
          if is_handle l \<and> owns s l then Some (s\<lparr>fault := True\<rparr>)
          else if owner s (mutex_of l) = None
          then Some (s\<lparr>owner := (owner s)(mutex_of l := Some t),
                      owns := (owns s)(l := is_handle l),
                      cvw := (cvw s)(t := Running)\<rparr>)
          else None
      | _ \<Rightarrow> None)"

definition run_control :: "priority_mutex \<Rightarrow> thread \<Rightarrow> state \<Rightarrow> state option" where
  "run_control S t s =
     (case ctl s t of
        Idle \<Rightarrow>
          Some (s\<lparr>ctl := (ctl s)(t := if shouldRun s then InLock (lock_prog S t) else Exited)\<rparr>)
      | InLock [] \<Rightarrow> Some (s\<lparr>ctl := (ctl s)(t := Held), history := Acquire t # history s\<rparr>)
      | InLock (i # is) \<Rightarrow> exec_body t i (InLock is) s
      | Held \<Rightarrow>
          Some (s\<lparr>ctl := (ctl s)(t := InUnlock (unlock_prog S t)),
                  history := Release t # history s\<rparr>)
      | InUnlock [] \<Rightarrow> Some (s\<lparr>ctl := (ctl s)(t := Idle)\<rparr>)
      | InUnlock (i # is) \<Rightarrow> exec_body t i (InUnlock is) s
      | Exited \<Rightarrow> None)"

text \<open>
  The scheduler's choices: let a worker execute its next statement, wake a blocked worker
  spuriously, or let the controller thread of \<^verbatim>\<open>ContentionTest::run\<close> execute
  \<^verbatim>\<open>shouldRun_ = false\<close>. Nothing is executed in a state with \<open>fault\<close> set.
\<close>

datatype event = Run thread | Spurious thread | Stop

fun exec :: "priority_mutex \<Rightarrow> event \<Rightarrow> state \<Rightarrow> state option" where
  "exec S (Run t) s =
     (if fault s then None
      else case cvw s t of
        Blocked \<Rightarrow> None
      | Woken \<Rightarrow> reacquire t s
      | Running \<Rightarrow> run_control S t s)"
| "exec S (Spurious t) s =
     (if \<not> fault s \<and> cvw s t = Blocked then Some (s\<lparr>cvw := (cvw s)(t := Woken)\<rparr>)
      else None)"
| "exec S Stop s =
     (if \<not> fault s \<and> shouldRun s then Some (s\<lparr>shouldRun := False\<rparr>) else None)"

fun run :: "priority_mutex \<Rightarrow> event list \<Rightarrow> state \<Rightarrow> state option" where
  "run S [] s = Some s"
| "run S (e # es) s = (case exec S e s of None \<Rightarrow> None | Some s' \<Rightarrow> run S es s')"

text \<open>
  \<^verbatim>\<open>ContentionTest::run\<close> starts the two workers on the object it was given, whatever state
  that object is in. A freshly constructed object has every mutex free, both
  \<^verbatim>\<open>unique_lock\<close> members constructed with \<^verbatim>\<open>defer_lock\<close> (flag not set) and every boolean
  false.
\<close>

definition start_run ::
  "(lockable \<Rightarrow> thread option) \<Rightarrow> (lockable \<Rightarrow> bool) \<Rightarrow> (var \<Rightarrow> bool) \<Rightarrow> state" where
  "start_run ow hs vs = \<lparr> owner = ow, owns = hs, vars = vs, ctl = (\<lambda>t. Idle),
     cvw = (\<lambda>t. Running), shouldRun = True, fault = False, history = [] \<rparr>"

definition fresh_owner :: "lockable \<Rightarrow> thread option" where
  "fresh_owner = (\<lambda>l. None)"

definition fresh_owns :: "lockable \<Rightarrow> bool" where
  "fresh_owns = (\<lambda>l. False)"

definition fresh_vars :: "var \<Rightarrow> bool" where
  "fresh_vars = (\<lambda>v. False)"

definition init :: state where
  "init = start_run fresh_owner fresh_owns fresh_vars"

definition reachable :: "priority_mutex \<Rightarrow> state \<Rightarrow> bool" where
  "reachable S s = (\<exists>es. run S es init = Some s)"

section \<open>Reachability\<close>

lemma exec_Some [simp]:
  "exec S (Run t) s = Some s' \<longleftrightarrow>
     \<not> fault s \<and>
     (case cvw s t of
        Blocked \<Rightarrow> None
      | Woken \<Rightarrow> reacquire t s
      | Running \<Rightarrow> run_control S t s) = Some s'"
  "exec S (Spurious t) s = Some s' \<longleftrightarrow>
     \<not> fault s \<and>
     (if cvw s t = Blocked then Some (s\<lparr>cvw := (cvw s)(t := Woken)\<rparr>) else None) = Some s'"
  "exec S Stop s = Some s' \<longleftrightarrow>
     \<not> fault s \<and> (if shouldRun s then Some (s\<lparr>shouldRun := False\<rparr>) else None) = Some s'"
  by auto

lemma exec_no_fault: "exec S e s = Some s' \<Longrightarrow> \<not> fault s"
  by (cases e) auto

declare exec.simps [simp del]

lemma run_append:
  "run S (es @ fs) s = (case run S es s of None \<Rightarrow> None | Some s' \<Rightarrow> run S fs s')"
  by (induction es arbitrary: s) (auto split: option.splits)

lemma reachable_init: "reachable S init"
  unfolding reachable_def by (rule exI [of _ "[]"]) simp

lemma reachable_step:
  assumes "reachable S s" and "exec S e s = Some s'"
  shows "reachable S s'"
proof -
  from assms(1) obtain es where "run S es init = Some s"
    unfolding reachable_def by blast
  with assms(2) have "run S (es @ [e]) init = Some s'"
    by (simp add: run_append)
  then show ?thesis unfolding reachable_def by blast
qed

lemma reachable_run:
  "reachable S s \<Longrightarrow> run S es s = Some s' \<Longrightarrow> reachable S s'"
proof (induction es arbitrary: s)
  case Nil
  then show ?case by simp
next
  case (Cons e es)
  then show ?case by (auto split: option.splits dest: reachable_step)
qed

lemma invariant_run:
  assumes step: "\<And>s e s'. P s \<Longrightarrow> exec S e s = Some s' \<Longrightarrow> P s'"
  shows "P s \<Longrightarrow> run S es s = Some s' \<Longrightarrow> P s'"
proof (induction es arbitrary: s)
  case Nil
  then show ?case by simp
next
  case (Cons e es)
  then show ?case by (auto split: option.splits dest: step)
qed

lemma invariant_reachable:
  assumes "reachable S s" and "P init"
    and "\<And>s e s'. P s \<Longrightarrow> exec S e s = Some s' \<Longrightarrow> P s'"
  shows "P s"
proof -
  from assms(1) obtain es where "run S es init = Some s"
    unfolding reachable_def by blast
  with assms(2) show ?thesis
    using invariant_run [of P S] assms(3) by blast
qed

section \<open>Mutex ownership: a static analysis of the statement lists\<close>

text \<open>
  Walking a statement list backwards from the set of mutexes the thread owns at its end
  gives the set it owns before each statement; \<open>safe\<close> checks that every lock statement
  acquires a mutex the thread does not own yet and that every unlock and wait is on a
  mutex it owns. For a class whose four member functions pass this check, the owner of
  each mutex is known from the control states alone. The analysis is about the mutexes
  only; the flags of the \<^verbatim>\<open>unique_lock\<close> members are treated in the next sections.
\<close>

fun owns_before :: "instr list \<Rightarrow> lockable set \<Rightarrow> lockable set" where
  "owns_before [] E = E"
| "owns_before (Lock l # is) E = owns_before is E - {mutex_of l}"
| "owns_before (Unlock l # is) E = insert (mutex_of l) (owns_before is E)"
| "owns_before (Assign v b # is) E = owns_before is E"
| "owns_before (CvWait l p # is) E = owns_before is E"
| "owns_before (NotifyAll # is) E = owns_before is E"

fun safe :: "instr list \<Rightarrow> lockable set \<Rightarrow> bool" where
  "safe [] E = True"
| "safe (Lock l # is) E = (mutex_of l \<in> owns_before is E \<and> safe is E)"
| "safe (Unlock l # is) E = (mutex_of l \<notin> owns_before is E \<and> safe is E)"
| "safe (Assign v b # is) E = safe is E"
| "safe (CvWait l p # is) E = (mutex_of l \<in> owns_before is E \<and> safe is E)"
| "safe (NotifyAll # is) E = safe is E"

definition crit_owned :: "priority_mutex \<Rightarrow> thread \<Rightarrow> lockable set" where
  "crit_owned S t = owns_before (unlock_prog S t) {}"

definition wf_thread :: "priority_mutex \<Rightarrow> thread \<Rightarrow> bool" where
  "wf_thread S t \<longleftrightarrow>
     safe (unlock_prog S t) {} \<and> safe (lock_prog S t) (crit_owned S t) \<and>
     owns_before (lock_prog S t) (crit_owned S t) = {}"

definition wf :: "priority_mutex \<Rightarrow> bool" where
  "wf S \<longleftrightarrow> wf_thread S Low \<and> wf_thread S High"

fun owned_at :: "priority_mutex \<Rightarrow> thread \<Rightarrow> control \<Rightarrow> lockable set" where
  "owned_at S t Idle = {}"
| "owned_at S t (InLock is) = owns_before is (crit_owned S t)"
| "owned_at S t Held = crit_owned S t"
| "owned_at S t (InUnlock is) = owns_before is {}"
| "owned_at S t Exited = {}"

fun safe_at :: "priority_mutex \<Rightarrow> thread \<Rightarrow> control \<Rightarrow> bool" where
  "safe_at S t (InLock is) = safe is (crit_owned S t)"
| "safe_at S t (InUnlock is) = safe is {}"
| "safe_at S t c = True"

definition waits_on :: "control \<Rightarrow> lockable set" where
  "waits_on c = (case current_instr c of Some (CvWait l p) \<Rightarrow> {mutex_of l} | _ \<Rightarrow> {})"

definition owned_now :: "priority_mutex \<Rightarrow> state \<Rightarrow> thread \<Rightarrow> lockable set" where
  "owned_now S s t =
     (if cvw s t = Running then owned_at S t (ctl s t)
      else owned_at S t (ctl s t) - waits_on (ctl s t))"

definition own_inv :: "priority_mutex \<Rightarrow> state \<Rightarrow> bool" where
  "own_inv S s \<longleftrightarrow>
     (\<forall>t. safe_at S t (ctl s t)) \<and>
     (\<forall>t. cvw s t \<noteq> Running \<longrightarrow> waits_on (ctl s t) \<noteq> {}) \<and>
     (\<forall>t m. (owner s m = Some t) = (m \<in> owned_now S s t))"

lemma wf_all: "wf S \<Longrightarrow> wf_thread S t"
  by (cases t) (simp_all add: wf_def)

lemma own_inv_init: "own_inv S init"
  by (simp add: own_inv_def init_def start_run_def fresh_owner_def owned_now_def)

lemma own_inv_fault: "own_inv S s \<Longrightarrow> own_inv S (s\<lparr>fault := True\<rparr>)"
  by (simp add: own_inv_def owned_now_def)

lemma own_inv_update:
  assumes inv: "own_inv S s"
    and others: "\<And>u. u \<noteq> t \<Longrightarrow> ctl s' u = ctl s u \<and> (cvw s' u = Running) = (cvw s u = Running)"
    and sf: "safe_at S t (ctl s' t)"
    and wt: "cvw s' t \<noteq> Running \<Longrightarrow> waits_on (ctl s' t) \<noteq> {}"
    and acq: "\<And>m. m \<in> owned_now S s' t \<Longrightarrow> owner s m = Some t \<or> owner s m = None"
    and own: "\<And>m. owner s' m =
                (if m \<in> owned_now S s' t then Some t
                 else if owner s m = Some t then None else owner s m)"
  shows "own_inv S s'"
proof -
  have old: "\<And>u m. (owner s m = Some u) = (m \<in> owned_now S s u)"
    using inv by (simp add: own_inv_def)
  have same: "\<And>u. u \<noteq> t \<Longrightarrow> owned_now S s' u = owned_now S s u"
    using others by (simp add: owned_now_def)
  have "(owner s' m = Some u) = (m \<in> owned_now S s' u)" for u m
  proof (cases "u = t")
    case True
    then show ?thesis using own [of m] by auto
  next
    case False
    show ?thesis
    proof (cases "m \<in> owned_now S s' t")
      case True
      have "owner s m = Some t \<or> owner s m = None" using True by (rule acq)
      with False have "m \<notin> owned_now S s u" using old [of m u] by auto
      with True False show ?thesis using own [of m] same [of u] by auto
    next
      case no: False
      then show ?thesis using own [of m] same [of u] old [of m u] False by auto
    qed
  qed
  moreover have "safe_at S u (ctl s' u)" for u
    using sf others [of u] inv by (cases "u = t") (auto simp: own_inv_def)
  moreover have "cvw s' u \<noteq> Running \<longrightarrow> waits_on (ctl s' u) \<noteq> {}" for u
    using wt others [of u] inv by (cases "u = t") (auto simp: own_inv_def)
  ultimately show ?thesis by (simp add: own_inv_def)
qed

lemma own_inv_body:
  assumes inv: "own_inv S s"
    and r: "cvw s t = Running"
    and c: "owned_at S t (ctl s t) = owns_before (i # js) E"
    and k: "owned_at S t k = owns_before js E" "safe_at S t k"
    and w: "waits_on k = {} \<or> waits_on k \<noteq> {}" "\<And>l p. i = CvWait l p \<Longrightarrow> waits_on (ctl s t) = {mutex_of l}"
    and sf: "safe (i # js) E" "safe_at S t (ctl s t)"
    and ex: "exec_body t i k s = Some s'"
  shows "own_inv S s'"
proof -
  have old: "\<And>u m. (owner s m = Some u) = (m \<in> owned_now S s u)"
    using inv by (simp add: own_inv_def)
  have mine: "\<And>m. (owner s m = Some t) = (m \<in> owns_before (i # js) E)"
    using old [of _ t] r c by (simp add: owned_now_def)
  show ?thesis
  proof (cases "s' = s\<lparr>fault := True\<rparr>")
    case True
    then show ?thesis using inv by (simp add: own_inv_fault)
  next
    case nofault: False
  show ?thesis
  proof (cases i)
    case (Lock l)
    with ex nofault have n: "owner s (mutex_of l) = None"
      and s': "s' = s\<lparr>owner := (owner s)(mutex_of l := Some t),
                      owns := (owns s)(l := is_handle l), ctl := (ctl s)(t := k)\<rparr>"
      by (auto simp: exec_body_def split: option.splits if_splits)
    show ?thesis
      apply (rule own_inv_update [OF inv, where t = t])
      using n mine k sf r Lock
      apply (auto simp: s' owned_now_def)
      done
  next
    case (Unlock l)
    with ex nofault
    have s': "s' = s\<lparr>owner := (owner s)(mutex_of l := None),
                      owns := (owns s)(l := False), ctl := (ctl s)(t := k)\<rparr>"
      by (auto simp: exec_body_def split: option.splits if_splits)
    show ?thesis
      apply (rule own_inv_update [OF inv, where t = t])
      using mine k sf r Unlock
      apply (auto simp: s' owned_now_def)
      done
  next
    case (Assign v b)
    with ex have s': "s' = s\<lparr>vars := (vars s)(v := b), ctl := (ctl s)(t := k)\<rparr>"
      by (auto simp: exec_body_def split: option.splits if_splits)
    show ?thesis
      apply (rule own_inv_update [OF inv, where t = t])
      using mine k sf r Assign
      apply (auto simp: s' owned_now_def)
      done
  next
    case (CvWait l p)
    show ?thesis
    proof (cases "beval p (vars s)")
      case True
      with CvWait ex nofault
      have s': "s' = s\<lparr>ctl := (ctl s)(t := k)\<rparr>"
        by (auto simp: exec_body_def split: option.splits if_splits)
      show ?thesis
        apply (rule own_inv_update [OF inv, where t = t])
        using mine k sf r CvWait
        apply (auto simp: s' owned_now_def)
        done
    next
      case False
      with CvWait ex nofault
      have s': "s' = s\<lparr>owner := (owner s)(mutex_of l := None),
                        owns := (owns s)(l := False), cvw := (cvw s)(t := Blocked)\<rparr>"
        by (auto simp: exec_body_def split: option.splits if_splits)
      show ?thesis
        apply (rule own_inv_update [OF inv, where t = t])
        using mine k sf r CvWait w(2) [OF CvWait] c
        apply (auto simp: s' owned_now_def)
        done
    qed
  next
    case NotifyAll
    with ex have s': "s' = s\<lparr>cvw := (\<lambda>u. if cvw s u = Blocked then Woken else cvw s u),
          ctl := (ctl s)(t := k)\<rparr>"
      by (auto simp: exec_body_def split: option.splits if_splits)
    show ?thesis
      apply (rule own_inv_update [OF inv, where t = t])
      using mine k sf r NotifyAll
      apply (auto simp: s' owned_now_def)
      done
  qed
  qed
qed

lemma waits_on_simps:
  "waits_on Idle = {}" "waits_on Held = {}" "waits_on Exited = {}"
  "waits_on (InLock []) = {}" "waits_on (InUnlock []) = {}"
  "waits_on (InLock (CvWait l p # is)) = {mutex_of l}"
  "waits_on (InUnlock (CvWait l p # is)) = {mutex_of l}"
  by (simp_all add: waits_on_def)

lemma own_inv_reacquire:
  assumes inv: "own_inv S s" and w: "cvw s t = Woken" and ex: "reacquire t s = Some s'"
  shows "own_inv S s'"
proof -
  show ?thesis
  proof (cases "s' = s\<lparr>fault := True\<rparr>")
    case True
    then show ?thesis using inv by (simp add: own_inv_fault)
  next
    case nofault: False
  with ex obtain l p where ci: "current_instr (ctl s t) = Some (CvWait l p)"
    and n: "owner s (mutex_of l) = None"
    and s': "s' = s\<lparr>owner := (owner s)(mutex_of l := Some t),
                    owns := (owns s)(l := is_handle l), cvw := (cvw s)(t := Running)\<rparr>"
    by (auto simp: reacquire_def split: option.splits instr.splits if_splits)
  have old: "\<And>u m. (owner s m = Some u) = (m \<in> owned_now S s u)"
    using inv by (simp add: own_inv_def)
  have sf: "safe_at S t (ctl s t)" using inv by (simp add: own_inv_def)
  from ci have wo: "waits_on (ctl s t) = {mutex_of l}" by (simp add: waits_on_def)
  from ci sf have "mutex_of l \<in> owned_at S t (ctl s t)"
    by (cases "ctl s t" rule: current_instr.cases) auto
  then show ?thesis
    apply -
    apply (rule own_inv_update [OF inv, where t = t])
    using n old [of _ t] w wo sf
    apply (auto simp: s' owned_now_def)
    done
  qed
qed

lemma own_inv_control:
  assumes wf: "wf S" and inv: "own_inv S s" and r: "cvw s t = Running"
    and ex: "run_control S t s = Some s'"
  shows "own_inv S s'"
proof -
  have old: "\<And>u m. (owner s m = Some u) = (m \<in> owned_now S s u)"
    using inv by (simp add: own_inv_def)
  have sf: "safe_at S t (ctl s t)" using inv by (simp add: own_inv_def)
  have wt: "wf_thread S t" using wf by (rule wf_all)
  show ?thesis
  proof (cases "ctl s t")
    case Idle
    with ex have s': "s' = s\<lparr>ctl := (ctl s)(t := if shouldRun s then InLock (lock_prog S t) else Exited)\<rparr>"
      by (simp add: run_control_def)
    show ?thesis
      apply (rule own_inv_update [OF inv, where t = t])
      using old [of _ t] r Idle wt
      apply (auto simp: s' owned_now_def wf_thread_def waits_on_simps split: if_splits)
      done
  next
    case (InLock rest)
    show ?thesis
    proof (cases rest)
      case Nil
      with ex InLock have s': "s' = s\<lparr>ctl := (ctl s)(t := Held), history := Acquire t # history s\<rparr>"
        by (simp add: run_control_def)
      show ?thesis
        apply (rule own_inv_update [OF inv, where t = t])
        using old [of _ t] r InLock Nil
        apply (auto simp: s' owned_now_def waits_on_simps)
        done
    next
      case (Cons i js)
      with ex InLock have "exec_body t i (InLock js) s = Some s'"
        by (simp add: run_control_def)
      then show ?thesis
        apply -
        apply (rule own_inv_body [OF inv r, where i = i and js = js and E = "crit_owned S t" and k = "InLock js"])
        using InLock Cons sf
        apply (auto simp: waits_on_simps)
        apply (cases i; simp)+
        done
    qed
  next
    case Held
    with ex have s': "s' = s\<lparr>ctl := (ctl s)(t := InUnlock (unlock_prog S t)),
        history := Release t # history s\<rparr>"
      by (simp add: run_control_def)
    show ?thesis
      apply (rule own_inv_update [OF inv, where t = t])
      using old [of _ t] r Held wt
      apply (auto simp: s' owned_now_def wf_thread_def crit_owned_def)
      done
  next
    case (InUnlock rest)
    show ?thesis
    proof (cases rest)
      case Nil
      with ex InUnlock have s': "s' = s\<lparr>ctl := (ctl s)(t := Idle)\<rparr>"
        by (simp add: run_control_def)
      show ?thesis
        apply (rule own_inv_update [OF inv, where t = t])
        using old [of _ t] r InUnlock Nil
        apply (auto simp: s' owned_now_def waits_on_simps)
        done
    next
      case (Cons i js)
      with ex InUnlock have "exec_body t i (InUnlock js) s = Some s'"
        by (simp add: run_control_def)
      then show ?thesis
        apply -
        apply (rule own_inv_body [OF inv r, where i = i and js = js and E = "{}" and k = "InUnlock js"])
        using InUnlock Cons sf
        apply (auto simp: waits_on_simps)
        apply (cases i; simp)+
        done
    qed
  next
    case Exited
    with ex show ?thesis by (simp add: run_control_def)
  qed
qed

lemma own_inv_step:
  assumes wf: "wf S" and inv: "own_inv S s" and ex: "exec S e s = Some s'"
  shows "own_inv S s'"
proof (cases e)
  case (Run t)
  show ?thesis
  proof (cases "cvw s t")
    case Running
    with ex Run show ?thesis using own_inv_control [OF wf inv] by (simp split: if_splits)
  next
    case Blocked
    with ex Run show ?thesis by (simp split: if_splits)
  next
    case Woken
    with ex Run show ?thesis using own_inv_reacquire [OF inv] by (simp split: if_splits)
  qed
next
  case (Spurious t)
  with ex have b: "cvw s t = Blocked" and s': "s' = s\<lparr>cvw := (cvw s)(t := Woken)\<rparr>"
    by (auto split: if_splits)
  have old: "\<And>u m. (owner s m = Some u) = (m \<in> owned_now S s u)"
    using inv by (simp add: own_inv_def)
  show ?thesis
    apply (rule own_inv_update [OF inv, where t = t])
    using old [of _ t] b inv
    apply (auto simp: s' owned_now_def own_inv_def)
    done
next
  case Stop
  with ex inv show ?thesis by (auto simp: own_inv_def owned_now_def split: if_splits)
qed

lemma wf_strategies:
  "wf BasicPriorityMutex" "wf TwoMutexPriorityMutex"
  "wf MutexAndAtomicBoolPriorityMutex" "wf MutexAndTwoBoolPriorityMutex"
  by (auto simp: wf_def wf_thread_def crit_owned_def BasicPriorityMutex_def
      TwoMutexPriorityMutex_def MutexAndAtomicBoolPriorityMutex_def
      MutexAndTwoBoolPriorityMutex_def)

lemma own_inv_reachable:
  assumes "wf S" and "reachable S s"
  shows "own_inv S s"
  using assms(2) own_inv_init own_inv_step [OF assms(1)]
  by (rule invariant_reachable)

section \<open>Control points\<close>

text \<open>Inside a call, the statements still to execute are a suffix of the member function.\<close>

fun tails :: "'a list \<Rightarrow> 'a list list" where
  "tails [] = [[]]"
| "tails (x # xs) = (x # xs) # tails xs"

fun at_point :: "priority_mutex \<Rightarrow> thread \<Rightarrow> control \<Rightarrow> bool" where
  "at_point S t (InLock js) = (js \<in> set (tails (lock_prog S t)))"
| "at_point S t (InUnlock js) = (js \<in> set (tails (unlock_prog S t)))"
| "at_point S t c = True"

lemma tails_self: "xs \<in> set (tails xs)"
  by (cases xs) simp_all

lemma tails_tl: "x # xs \<in> set (tails ys) \<Longrightarrow> xs \<in> set (tails ys)"
  by (induction ys) (auto simp: tails_self)


lemma exec_body_ctl:
  "exec_body t i k s = Some s' \<Longrightarrow>
     (ctl s' = (ctl s)(t := k) \<or> ctl s' = ctl s) \<and> shouldRun s' = shouldRun s"
  by (cases i) (auto simp: exec_body_def split: option.splits if_splits)

lemma exec_ctl_other:
  assumes "exec S e s = Some s'" and "e \<noteq> Run u"
  shows "ctl s' u = ctl s u"
proof (cases e)
  case (Run t)
  with assms(2) have ne: "t \<noteq> u" by simp
  show ?thesis
  proof (cases "cvw s t")
    case Running
    show ?thesis
    proof (cases "ctl s t")
      case (InLock rest)
      then show ?thesis using assms Run Running ne
        by (cases rest) (auto simp: run_control_def dest!: exec_body_ctl)
    next
      case (InUnlock rest)
      then show ?thesis using assms Run Running ne
        by (cases rest) (auto simp: run_control_def dest!: exec_body_ctl)
    qed (use assms Run Running ne in \<open>auto simp: run_control_def\<close>)
  next
    case Blocked
    then show ?thesis using assms Run by simp
  next
    case Woken
    then show ?thesis using assms Run
      by (auto simp: reacquire_def split: option.splits instr.splits if_splits)
  qed
next
  case (Spurious t)
  then show ?thesis using assms by (auto split: if_splits)
next
  case Stop
  then show ?thesis using assms by (auto split: if_splits)
qed

lemma exec_ctl_self:
  assumes "exec S (Run u) s = Some s'"
  shows "ctl s' u = ctl s u \<or>
    (cvw s u = Running \<and>
      (case ctl s u of
         Idle \<Rightarrow> ctl s' u = (if shouldRun s then InLock (lock_prog S u) else Exited)
       | InLock [] \<Rightarrow> ctl s' u = Held
       | InLock (i # js) \<Rightarrow> ctl s' u = InLock js
       | Held \<Rightarrow> ctl s' u = InUnlock (unlock_prog S u)
       | InUnlock [] \<Rightarrow> ctl s' u = Idle
       | InUnlock (i # js) \<Rightarrow> ctl s' u = InUnlock js
       | Exited \<Rightarrow> False))"
proof (cases "cvw s u")
  case Running
  show ?thesis
  proof (cases "ctl s u")
    case (InLock rest)
    then show ?thesis using assms Running
      by (cases rest) (auto simp: run_control_def dest!: exec_body_ctl)
  next
    case (InUnlock rest)
    then show ?thesis using assms Running
      by (cases rest) (auto simp: run_control_def dest!: exec_body_ctl)
  qed (use assms Running in \<open>auto simp: run_control_def\<close>)
next
  case Blocked
  then show ?thesis using assms by simp
next
  case Woken
  then show ?thesis using assms
    by (auto simp: reacquire_def split: option.splits instr.splits if_splits)
qed

lemma at_point_step:
  assumes "at_point S u (ctl s u)" and "exec S e s = Some s'"
  shows "at_point S u (ctl s' u)"
proof (cases "e = Run u")
  case False
  with assms show ?thesis by (simp add: exec_ctl_other)
next
  case True
  with assms(2) have "exec S (Run u) s = Some s'" by simp
  from exec_ctl_self [OF this] assms(1) show ?thesis
    by (auto simp: tails_self split: control.splits list.splits if_splits dest: tails_tl)
qed

lemma at_point_reachable:
  assumes "reachable S s"
  shows "at_point S u (ctl s u)"
  using assms
proof (rule invariant_reachable)
  show "at_point S u (ctl init u)" by (simp add: init_def start_run_def)
qed (rule at_point_step)

section \<open>The boolean members\<close>

subsection \<open>\<^verbatim>\<open>dataHeld_\<close> and \<^verbatim>\<open>highPriorityWaiting_\<close> of the two-boolean class\<close>

text \<open>
  A worker is in its \<open>held_window\<close> from the moment it has executed \<^verbatim>\<open>dataHeld_ = true\<close>
  in its lock call (the assignment is no longer among the statements to execute) until it
  executes \<^verbatim>\<open>dataHeld_ = false\<close> in its unlock call (the assignment is still to execute).
  The \<open>pending_window\<close> of the high-priority worker is the same for
  \<^verbatim>\<open>highPriorityWaiting_\<close>. The invariant \<open>pref_inv\<close> ties the two booleans to the
  windows, and says what a worker knows when it has passed its wait and is about to set
  \<^verbatim>\<open>dataHeld_\<close>. It holds in every state of every run, including a state in which \<open>fault\<close>
  has just been set; what it says about a high-priority worker that has passed its wait
  is about no reachable state (see \<open>high_wait\<close> below).
\<close>

fun held_window :: "control \<Rightarrow> bool" where
  "held_window (InLock js) = (Assign V_dataHeld True \<notin> set js)"
| "held_window Held = True"
| "held_window (InUnlock js) = (Assign V_dataHeld False \<in> set js)"
| "held_window Idle = False"
| "held_window Exited = False"

fun pending_window :: "control \<Rightarrow> bool" where
  "pending_window (InLock js) = (Assign V_highPriorityWaiting True \<notin> set js)"
| "pending_window Held = True"
| "pending_window (InUnlock js) = (Assign V_highPriorityWaiting False \<in> set js)"
| "pending_window Idle = False"
| "pending_window Exited = False"

definition pref_inv :: "state \<Rightarrow> bool" where
  "pref_inv s \<longleftrightarrow>
     vars s V_dataHeld = (held_window (ctl s Low) \<or> held_window (ctl s High)) \<and>
     \<not> (held_window (ctl s Low) \<and> held_window (ctl s High)) \<and>
     vars s V_highPriorityWaiting = pending_window (ctl s High) \<and>
     \<not> vars s V_waiting \<and>
     (current_instr (ctl s Low) = Some (Assign V_dataHeld True) \<longrightarrow>
        owner s DataMutex = Some Low \<and> \<not> vars s V_dataHeld \<and> \<not> vars s V_highPriorityWaiting) \<and>
     (current_instr (ctl s High) = Some (Assign V_dataHeld True) \<longrightarrow>
        owner s DataMutex = Some High \<and> \<not> vars s V_dataHeld)"

lemma pref_inv_init: "pref_inv init"
  by (simp add: pref_inv_def init_def start_run_def fresh_vars_def)

lemma pref_points:
  assumes "at_point MutexAndTwoBoolPriorityMutex t c"
  shows "c = Idle \<or> c = Held \<or> c = Exited \<or>
    (\<exists>js \<in> set (tails (lock_prog MutexAndTwoBoolPriorityMutex t)). c = InLock js) \<or>
    (\<exists>js \<in> set (tails (unlock_prog MutexAndTwoBoolPriorityMutex t)). c = InUnlock js)"
  using assms by (cases c) auto

lemma pref_step_Low:
  assumes own: "own_inv MutexAndTwoBoolPriorityMutex s"
    and pt: "at_point MutexAndTwoBoolPriorityMutex Low (ctl s Low)"
    and inv: "pref_inv s"
    and ex: "exec MutexAndTwoBoolPriorityMutex (Run Low) s = Some s'"
  shows "pref_inv s'"
proof -
  have o: "(owner s DataMutex = Some Low) = (DataMutex \<in> owned_now MutexAndTwoBoolPriorityMutex s Low)"
    using own by (simp add: own_inv_def)
  have w: "cvw s Low \<noteq> Running \<longrightarrow> waits_on (ctl s Low) \<noteq> {}"
    using own by (simp add: own_inv_def)
  note pts = pref_points [OF pt, simplified MutexAndTwoBoolPriorityMutex_def, simplified]
  show ?thesis
  proof (cases "cvw s Low")
    case Running
    from pts show ?thesis
      apply (elim disjE)
      using o inv ex Running
      apply (auto simp: pref_inv_def run_control_def exec_body_def MutexAndTwoBoolPriorityMutex_def
         owned_now_def crit_owned_def split: option.splits if_splits)
      done
  next
    case Blocked
    then show ?thesis using ex by simp
  next
    case Woken
    from pts show ?thesis
      apply (elim disjE)
      using o inv ex w Woken
      apply (auto simp: pref_inv_def reacquire_def MutexAndTwoBoolPriorityMutex_def
         owned_now_def crit_owned_def waits_on_def  split: option.splits if_splits)
      done
  qed
qed

lemma pref_step_High:
  assumes own: "own_inv MutexAndTwoBoolPriorityMutex s"
    and pt: "at_point MutexAndTwoBoolPriorityMutex High (ctl s High)"
    and inv: "pref_inv s"
    and ex: "exec MutexAndTwoBoolPriorityMutex (Run High) s = Some s'"
  shows "pref_inv s'"
proof -
  have o: "(owner s DataMutex = Some High) = (DataMutex \<in> owned_now MutexAndTwoBoolPriorityMutex s High)"
    using own by (simp add: own_inv_def)
  have w: "cvw s High \<noteq> Running \<longrightarrow> waits_on (ctl s High) \<noteq> {}"
    using own by (simp add: own_inv_def)
  note pts = pref_points [OF pt, simplified MutexAndTwoBoolPriorityMutex_def, simplified]
  show ?thesis
  proof (cases "cvw s High")
    case Running
    from pts show ?thesis
      apply (elim disjE)
      using o inv ex Running
      apply (auto simp: pref_inv_def run_control_def exec_body_def MutexAndTwoBoolPriorityMutex_def
         owned_now_def crit_owned_def split: option.splits if_splits)
      done
  next
    case Blocked
    then show ?thesis using ex by simp
  next
    case Woken
    from pts show ?thesis
      apply (elim disjE)
      using o inv ex w Woken
      apply (auto simp: pref_inv_def reacquire_def MutexAndTwoBoolPriorityMutex_def
         owned_now_def crit_owned_def waits_on_def  split: option.splits if_splits)
      done
  qed
qed

lemma pref_inv_step:
  assumes own: "own_inv MutexAndTwoBoolPriorityMutex s"
    and pt: "\<And>t. at_point MutexAndTwoBoolPriorityMutex t (ctl s t)"
    and inv: "pref_inv s"
    and ex: "exec MutexAndTwoBoolPriorityMutex e s = Some s'"
  shows "pref_inv s'"
proof (cases e)
  case (Run t)
  then show ?thesis
    using pref_step_Low [OF own pt inv] pref_step_High [OF own pt inv] ex
    by (cases t) simp_all
next
  case (Spurious t)
  then show ?thesis using inv ex by (auto simp: pref_inv_def split: if_splits)
next
  case Stop
  then show ?thesis using inv ex by (auto simp: pref_inv_def split: if_splits)
qed

lemma pref_inv_reachable:
  assumes "reachable MutexAndTwoBoolPriorityMutex s"
  shows "pref_inv s"
proof -
  let ?P = "\<lambda>s. reachable MutexAndTwoBoolPriorityMutex s \<and> pref_inv s"
  have "?P s"
    using assms
  proof (rule invariant_reachable)
    show "?P init" by (simp add: reachable_init pref_inv_init)
  next
    fix s e s'
    assume p: "?P s" and ex: "exec MutexAndTwoBoolPriorityMutex e s = Some s'"
    from p have r: "reachable MutexAndTwoBoolPriorityMutex s" and i: "pref_inv s" by simp_all
    from r ex have "reachable MutexAndTwoBoolPriorityMutex s'" by (rule reachable_step)
    moreover have "pref_inv s'"
      using own_inv_reachable [OF wf_strategies(4) r] at_point_reachable [OF r] i ex
      by (rule pref_inv_step)
    ultimately show "?P s'" by simp
  qed
  then show ?thesis by simp
qed

subsection \<open>\<^verbatim>\<open>waiting_\<close> of the atomic-boolean class\<close>

text \<open>
  The high-priority worker is in its \<open>flag_window\<close> when it has executed
  \<^verbatim>\<open>waiting_ = true\<close> and has \<^verbatim>\<open>waiting_ = false\<close> still to execute; both assignments are
  in \<^verbatim>\<open>lockHighPriority\<close>.
\<close>

fun flag_window :: "control \<Rightarrow> bool" where
  "flag_window (InLock js) = (Assign V_waiting True \<notin> set js \<and> Assign V_waiting False \<in> set js)"
| "flag_window c = False"

definition flag_inv :: "state \<Rightarrow> bool" where
  "flag_inv s \<longleftrightarrow>
     vars s V_waiting = flag_window (ctl s High) \<and>
     \<not> vars s V_dataHeld \<and> \<not> vars s V_highPriorityWaiting"

lemma flag_points:
  assumes "at_point MutexAndAtomicBoolPriorityMutex t c"
  shows "c = Idle \<or> c = Held \<or> c = Exited \<or>
    (\<exists>js \<in> set (tails (lock_prog MutexAndAtomicBoolPriorityMutex t)). c = InLock js) \<or>
    (\<exists>js \<in> set (tails (unlock_prog MutexAndAtomicBoolPriorityMutex t)). c = InUnlock js)"
  using assms by (cases c) auto

lemma flag_inv_step:
  assumes pt: "\<And>t. at_point MutexAndAtomicBoolPriorityMutex t (ctl s t)"
    and inv: "flag_inv s"
    and ex: "exec MutexAndAtomicBoolPriorityMutex e s = Some s'"
  shows "flag_inv s'"
proof (cases e)
  case (Run t)
  note pts = flag_points [OF pt [of t], simplified MutexAndAtomicBoolPriorityMutex_def]
  show ?thesis
  proof (cases t)
    case Low
    from pts [simplified Low, simplified] show ?thesis
      apply (elim disjE)
      using inv ex Run Low
      apply (auto simp: flag_inv_def run_control_def exec_body_def reacquire_def
          MutexAndAtomicBoolPriorityMutex_def
          split: option.splits if_splits wait_status.splits)
      done
  next
    case High
    from pts [simplified High, simplified] show ?thesis
      apply (elim disjE)
      using inv ex Run High
      apply (auto simp: flag_inv_def run_control_def exec_body_def reacquire_def
          MutexAndAtomicBoolPriorityMutex_def
          split: option.splits if_splits wait_status.splits)
      done
  qed
next
  case (Spurious t)
  then show ?thesis using inv ex by (auto simp: flag_inv_def split: if_splits)
next
  case Stop
  then show ?thesis using inv ex by (auto simp: flag_inv_def split: if_splits)
qed

lemma flag_inv_reachable:
  assumes "reachable MutexAndAtomicBoolPriorityMutex s"
  shows "flag_inv s"
proof -
  let ?P = "\<lambda>s. reachable MutexAndAtomicBoolPriorityMutex s \<and> flag_inv s"
  have "?P s"
    using assms
  proof (rule invariant_reachable)
    have "flag_inv init"
      by (simp add: flag_inv_def init_def start_run_def fresh_vars_def)
    then show "?P init" by (simp add: reachable_init)
  next
    fix s e s'
    assume p: "?P s" and ex: "exec MutexAndAtomicBoolPriorityMutex e s = Some s'"
    from p have r: "reachable MutexAndAtomicBoolPriorityMutex s" and i: "flag_inv s" by simp_all
    from r ex have "reachable MutexAndAtomicBoolPriorityMutex s'" by (rule reachable_step)
    moreover have "flag_inv s'"
      using at_point_reachable [OF r] i ex by (rule flag_inv_step)
    ultimately show "?P s'" by simp
  qed
  then show ?thesis by simp
qed

section \<open>The flags of the \<^verbatim>\<open>unique_lock\<close> members\<close>

text \<open>
  In the two classes that have them, the flag of \<^verbatim>\<open>lowPriorityLock_\<close> is set exactly while
  the low-priority worker has \<^verbatim>\<open>dataMutex_\<close> locked, and the flag of \<^verbatim>\<open>highPriorityLock_\<close>
  exactly while the high-priority worker has. The other two classes have no
  \<^verbatim>\<open>unique_lock\<close>.
\<close>

definition handles_inv :: "state \<Rightarrow> bool" where
  "handles_inv s \<longleftrightarrow>
     owns s LowPriorityLock = (owner s DataMutex = Some Low) \<and>
     owns s HighPriorityLock = (owner s DataMutex = Some High) \<and>
     \<not> owns s Mutex \<and> \<not> owns s DataMutex \<and> \<not> owns s NextToAccessMutex"

definition no_handles :: "state \<Rightarrow> bool" where
  "no_handles s \<longleftrightarrow> (\<forall>l. \<not> owns s l)"

lemma handles_inv_init: "handles_inv init"
  by (simp add: handles_inv_def init_def start_run_def fresh_owns_def fresh_owner_def)

lemma no_handles_init: "no_handles init"
  by (simp add: no_handles_def init_def start_run_def fresh_owns_def)

lemma basic_points:
  assumes "at_point BasicPriorityMutex t c"
  shows "c = Idle \<or> c = Held \<or> c = Exited \<or>
    (\<exists>js \<in> set (tails (lock_prog BasicPriorityMutex t)). c = InLock js) \<or>
    (\<exists>js \<in> set (tails (unlock_prog BasicPriorityMutex t)). c = InUnlock js)"
  using assms by (cases c) auto

lemma gated_points_of:
  assumes "at_point TwoMutexPriorityMutex t c"
  shows "c = Idle \<or> c = Held \<or> c = Exited \<or>
    (\<exists>js \<in> set (tails (lock_prog TwoMutexPriorityMutex t)). c = InLock js) \<or>
    (\<exists>js \<in> set (tails (unlock_prog TwoMutexPriorityMutex t)). c = InUnlock js)"
  using assms by (cases c) auto

lemma flag_handles_step:
  assumes pt: "\<And>t. at_point MutexAndAtomicBoolPriorityMutex t (ctl s t)"
    and inv: "handles_inv s"
    and ex: "exec MutexAndAtomicBoolPriorityMutex e s = Some s'"
  shows "handles_inv s'"
proof (cases e)
  case (Run t)
  note pts = flag_points [OF pt [of t], simplified MutexAndAtomicBoolPriorityMutex_def]
  show ?thesis
  proof (cases t)
    case Low
    from pts [simplified Low, simplified] show ?thesis
      apply (elim disjE)
      using inv ex Run Low
      apply (auto simp: handles_inv_def run_control_def exec_body_def reacquire_def
          MutexAndAtomicBoolPriorityMutex_def
          split: option.splits if_splits wait_status.splits)
      done
  next
    case High
    from pts [simplified High, simplified] show ?thesis
      apply (elim disjE)
      using inv ex Run High
      apply (auto simp: handles_inv_def run_control_def exec_body_def reacquire_def
          MutexAndAtomicBoolPriorityMutex_def
          split: option.splits if_splits wait_status.splits)
      done
  qed
next
  case (Spurious t)
  then show ?thesis using inv ex by (auto simp: handles_inv_def split: if_splits)
next
  case Stop
  then show ?thesis using inv ex by (auto simp: handles_inv_def split: if_splits)
qed

lemma pref_handles_step:
  assumes pt: "\<And>t. at_point MutexAndTwoBoolPriorityMutex t (ctl s t)"
    and inv: "handles_inv s \<and> cvw s High = Running"
    and ex: "exec MutexAndTwoBoolPriorityMutex e s = Some s'"
  shows "handles_inv s' \<and> cvw s' High = Running"
proof (cases e)
  case (Run t)
  note pts = pref_points [OF pt [of t], simplified MutexAndTwoBoolPriorityMutex_def]
  show ?thesis
  proof (cases t)
    case Low
    from pts [simplified Low, simplified] show ?thesis
      apply (elim disjE)
      using inv ex Run Low
      apply (auto simp: handles_inv_def run_control_def exec_body_def reacquire_def
          MutexAndTwoBoolPriorityMutex_def
          split: option.splits if_splits wait_status.splits)
      done
  next
    case High
    from pts [simplified High, simplified] show ?thesis
      apply (elim disjE)
      using inv ex Run High
      apply (auto simp: handles_inv_def run_control_def exec_body_def reacquire_def
          MutexAndTwoBoolPriorityMutex_def
          split: option.splits if_splits wait_status.splits)
      done
  qed
next
  case (Spurious t)
  then show ?thesis using inv ex by (auto simp: handles_inv_def split: if_splits)
next
  case Stop
  then show ?thesis using inv ex by (auto simp: handles_inv_def split: if_splits)
qed

lemma basic_handles_step:
  assumes pt: "\<And>t. at_point BasicPriorityMutex t (ctl s t)"
    and inv: "no_handles s"
    and ex: "exec BasicPriorityMutex e s = Some s'"
  shows "no_handles s'"
proof (cases e)
  case (Run t)
  note pts = basic_points [OF pt [of t], simplified BasicPriorityMutex_def]
  show ?thesis
  proof (cases t)
    case Low
    from pts [simplified Low, simplified] show ?thesis
      apply (elim disjE)
      using inv ex Run Low
      apply (auto simp: no_handles_def run_control_def exec_body_def reacquire_def
          BasicPriorityMutex_def
          split: option.splits if_splits wait_status.splits)
      done
  next
    case High
    from pts [simplified High, simplified] show ?thesis
      apply (elim disjE)
      using inv ex Run High
      apply (auto simp: no_handles_def run_control_def exec_body_def reacquire_def
          BasicPriorityMutex_def
          split: option.splits if_splits wait_status.splits)
      done
  qed
next
  case (Spurious t)
  then show ?thesis using inv ex by (auto simp: no_handles_def split: if_splits)
next
  case Stop
  then show ?thesis using inv ex by (auto simp: no_handles_def split: if_splits)
qed

lemma gated_handles_step:
  assumes pt: "\<And>t. at_point TwoMutexPriorityMutex t (ctl s t)"
    and inv: "no_handles s"
    and ex: "exec TwoMutexPriorityMutex e s = Some s'"
  shows "no_handles s'"
proof (cases e)
  case (Run t)
  note pts = gated_points_of [OF pt [of t], simplified TwoMutexPriorityMutex_def]
  show ?thesis
  proof (cases t)
    case Low
    from pts [simplified Low, simplified] show ?thesis
      apply (elim disjE)
      using inv ex Run Low
      apply (auto simp: no_handles_def run_control_def exec_body_def reacquire_def
          TwoMutexPriorityMutex_def
          split: option.splits if_splits wait_status.splits)
      done
  next
    case High
    from pts [simplified High, simplified] show ?thesis
      apply (elim disjE)
      using inv ex Run High
      apply (auto simp: no_handles_def run_control_def exec_body_def reacquire_def
          TwoMutexPriorityMutex_def
          split: option.splits if_splits wait_status.splits)
      done
  qed
next
  case (Spurious t)
  then show ?thesis using inv ex by (auto simp: no_handles_def split: if_splits)
next
  case Stop
  then show ?thesis using inv ex by (auto simp: no_handles_def split: if_splits)
qed

lemma class_invariant:
  assumes r: "reachable S s" and i: "P init"
    and step: "\<And>s e s'. (\<And>t. at_point S t (ctl s t)) \<Longrightarrow> P s \<Longrightarrow> exec S e s = Some s' \<Longrightarrow> P s'"
  shows "P s"
proof -
  let ?P = "\<lambda>s. reachable S s \<and> P s"
  have "?P s"
    using r
  proof (rule invariant_reachable)
    show "?P init" using i by (simp add: reachable_init)
  next
    fix s e s'
    assume p: "?P s" and ex: "exec S e s = Some s'"
    from p have r: "reachable S s" and i: "P s" by simp_all
    from r ex have "reachable S s'" by (rule reachable_step)
    moreover have "P s'"
      using at_point_reachable [OF r] i ex by (rule step)
    ultimately show "?P s'" by simp
  qed
  then show ?thesis by simp
qed

lemma handles_reachable:
  "reachable MutexAndAtomicBoolPriorityMutex s \<Longrightarrow> handles_inv s"
  "reachable MutexAndTwoBoolPriorityMutex s \<Longrightarrow> handles_inv s \<and> cvw s High = Running"
  "reachable BasicPriorityMutex s \<Longrightarrow> no_handles s"
  "reachable TwoMutexPriorityMutex s \<Longrightarrow> no_handles s"
proof -
  show "reachable MutexAndAtomicBoolPriorityMutex s \<Longrightarrow> handles_inv s"
    by (rule class_invariant [where P = handles_inv]) (auto simp: handles_inv_init intro: flag_handles_step)
  show "reachable MutexAndTwoBoolPriorityMutex s \<Longrightarrow> handles_inv s \<and> cvw s High = Running"
    apply (rule class_invariant [where P = "\<lambda>s. handles_inv s \<and> cvw s High = Running"])
      apply assumption
     apply (simp add: handles_inv_init)
     apply (simp add: init_def start_run_def)
    apply (rule pref_handles_step)
      apply assumption+
    done
  show "reachable BasicPriorityMutex s \<Longrightarrow> no_handles s"
    by (rule class_invariant [where P = no_handles]) (auto simp: no_handles_init intro: basic_handles_step)
  show "reachable TwoMutexPriorityMutex s \<Longrightarrow> no_handles s"
    by (rule class_invariant [where P = no_handles]) (auto simp: no_handles_init intro: gated_handles_step)
qed

text \<open>
  With the owner of each mutex and the flags known, no statement of the first three
  classes throws or is undefined.
\<close>

lemma basic_no_fault_step:
  assumes own: "own_inv BasicPriorityMutex s"
    and h: "no_handles s"
    and pt: "\<And>t. at_point BasicPriorityMutex t (ctl s t)"
    and ex: "exec BasicPriorityMutex e s = Some s'"
  shows "\<not> fault s'"
proof (cases e)
  case (Run t)
  have o: "(owner s m = Some t) = (m \<in> owned_now BasicPriorityMutex s t)" for m
    using own by (simp add: own_inv_def)
  have w: "cvw s t \<noteq> Running \<longrightarrow> waits_on (ctl s t) \<noteq> {}"
    using own by (simp add: own_inv_def)
  note pts = basic_points [OF pt [of t], simplified BasicPriorityMutex_def]
  show ?thesis
  proof (cases t)
    case Low
    from pts [simplified Low, simplified] show ?thesis
      apply (elim disjE)
      using h ex Run Low o [of Mutex] o [of DataMutex] o [of NextToAccessMutex] w
      apply (auto simp: no_handles_def run_control_def exec_body_def reacquire_def
          BasicPriorityMutex_def owned_now_def crit_owned_def waits_on_def
          split: option.splits if_splits wait_status.splits)
      done
  next
    case High
    from pts [simplified High, simplified] show ?thesis
      apply (elim disjE)
      using h ex Run High o [of Mutex] o [of DataMutex] o [of NextToAccessMutex] w
      apply (auto simp: no_handles_def run_control_def exec_body_def reacquire_def
          BasicPriorityMutex_def owned_now_def crit_owned_def waits_on_def
          split: option.splits if_splits wait_status.splits)
      done
  qed
next
  case (Spurious t)
  then show ?thesis using ex by (auto split: if_splits)
next
  case Stop
  then show ?thesis using ex by (auto split: if_splits)
qed

lemma gated_no_fault_step:
  assumes own: "own_inv TwoMutexPriorityMutex s"
    and h: "no_handles s"
    and pt: "\<And>t. at_point TwoMutexPriorityMutex t (ctl s t)"
    and ex: "exec TwoMutexPriorityMutex e s = Some s'"
  shows "\<not> fault s'"
proof (cases e)
  case (Run t)
  have o: "(owner s m = Some t) = (m \<in> owned_now TwoMutexPriorityMutex s t)" for m
    using own by (simp add: own_inv_def)
  have w: "cvw s t \<noteq> Running \<longrightarrow> waits_on (ctl s t) \<noteq> {}"
    using own by (simp add: own_inv_def)
  note pts = gated_points_of [OF pt [of t], simplified TwoMutexPriorityMutex_def]
  show ?thesis
  proof (cases t)
    case Low
    from pts [simplified Low, simplified] show ?thesis
      apply (elim disjE)
      using h ex Run Low o [of Mutex] o [of DataMutex] o [of NextToAccessMutex] w
      apply (auto simp: no_handles_def run_control_def exec_body_def reacquire_def
          TwoMutexPriorityMutex_def owned_now_def crit_owned_def waits_on_def
          split: option.splits if_splits wait_status.splits)
      done
  next
    case High
    from pts [simplified High, simplified] show ?thesis
      apply (elim disjE)
      using h ex Run High o [of Mutex] o [of DataMutex] o [of NextToAccessMutex] w
      apply (auto simp: no_handles_def run_control_def exec_body_def reacquire_def
          TwoMutexPriorityMutex_def owned_now_def crit_owned_def waits_on_def
          split: option.splits if_splits wait_status.splits)
      done
  qed
next
  case (Spurious t)
  then show ?thesis using ex by (auto split: if_splits)
next
  case Stop
  then show ?thesis using ex by (auto split: if_splits)
qed

lemma flag_no_fault_step:
  assumes own: "own_inv MutexAndAtomicBoolPriorityMutex s"
    and h: "handles_inv s"
    and pt: "\<And>t. at_point MutexAndAtomicBoolPriorityMutex t (ctl s t)"
    and ex: "exec MutexAndAtomicBoolPriorityMutex e s = Some s'"
  shows "\<not> fault s'"
proof (cases e)
  case (Run t)
  have o: "(owner s m = Some t) = (m \<in> owned_now MutexAndAtomicBoolPriorityMutex s t)" for m
    using own by (simp add: own_inv_def)
  have w: "cvw s t \<noteq> Running \<longrightarrow> waits_on (ctl s t) \<noteq> {}"
    using own by (simp add: own_inv_def)
  note pts = flag_points [OF pt [of t], simplified MutexAndAtomicBoolPriorityMutex_def]
  show ?thesis
  proof (cases t)
    case Low
    from pts [simplified Low, simplified] show ?thesis
      apply (elim disjE)
      using h ex Run Low o [of Mutex] o [of DataMutex] o [of NextToAccessMutex] w
      apply (auto simp: handles_inv_def run_control_def exec_body_def reacquire_def
          MutexAndAtomicBoolPriorityMutex_def owned_now_def crit_owned_def waits_on_def
          split: option.splits if_splits wait_status.splits)
      done
  next
    case High
    from pts [simplified High, simplified] show ?thesis
      apply (elim disjE)
      using h ex Run High o [of Mutex] o [of DataMutex] o [of NextToAccessMutex] w
      apply (auto simp: handles_inv_def run_control_def exec_body_def reacquire_def
          MutexAndAtomicBoolPriorityMutex_def owned_now_def crit_owned_def waits_on_def
          split: option.splits if_splits wait_status.splits)
      done
  qed
next
  case (Spurious t)
  then show ?thesis using ex by (auto split: if_splits)
next
  case Stop
  then show ?thesis using ex by (auto split: if_splits)
qed

lemma no_fault_reachable:
  assumes "S \<in> {BasicPriorityMutex, TwoMutexPriorityMutex, MutexAndAtomicBoolPriorityMutex}"
    and r: "reachable S s"
  shows "\<not> fault s"
proof -
  let ?P = "\<lambda>s. reachable S s \<and> \<not> fault s"
  have "?P s"
    using r
  proof (rule invariant_reachable)
    have "\<not> fault init" by (simp add: init_def start_run_def)
    then show "?P init" by (simp add: reachable_init)
  next
    fix s e s'
    assume p: "?P s" and ex: "exec S e s = Some s'"
    from p have r: "reachable S s" by simp
    from r ex have "reachable S s'" by (rule reachable_step)
    moreover have "\<not> fault s'"
      using assms(1) basic_no_fault_step [OF own_inv_reachable [OF wf_strategies(1)] handles_reachable(3) at_point_reachable, of s e s']
        gated_no_fault_step [OF own_inv_reachable [OF wf_strategies(2)] handles_reachable(4) at_point_reachable, of s e s']
        flag_no_fault_step [OF own_inv_reachable [OF wf_strategies(3)] handles_reachable(1) at_point_reachable, of s e s']
        r ex
      by auto
    ultimately show "?P s'" by simp
  qed
  then show ?thesis by simp
qed

section \<open>The wait of \<^verbatim>\<open>lockHighPriority\<close> in the two-boolean class\<close>

text \<open>
  \<^verbatim>\<open>MutexAndTwoBoolPriorityMutex::lockHighPriority\<close> has locked \<^verbatim>\<open>dataMutex_\<close> through
  \<^verbatim>\<open>highPriorityLock_\<close> when it calls \<^verbatim>\<open>cv_.wait(lowPriorityLock_, ...)\<close>. The flag of
  \<^verbatim>\<open>lowPriorityLock_\<close> is set only while the low-priority worker has the mutex, so it is
  never set at that call: the call violates the precondition of \<^verbatim>\<open>wait\<close> every time it is
  made. \<open>high_wait\<close> is the control point of the call. The high-priority worker never gets
  past it, its step there sets \<open>fault\<close>, and no other statement of the class does.
\<close>

definition high_wait :: "instr list" where
  "high_wait = [CvWait LowPriorityLock (BNot (BVar V_dataHeld)), Assign V_dataHeld True,
     Unlock HighPriorityLock]"

definition before_high_wait :: "control \<Rightarrow> bool" where
  "before_high_wait c \<longleftrightarrow>
     c = Idle \<or> c = Exited \<or>
     c = InLock (lockHighPriority MutexAndTwoBoolPriorityMutex) \<or>
     c = InLock (Assign V_highPriorityWaiting True # high_wait) \<or>
     c = InLock high_wait"

lemma pref_high_step:
  assumes pt: "\<And>t. at_point MutexAndTwoBoolPriorityMutex t (ctl s t)"
    and inv: "before_high_wait (ctl s High) \<and> handles_inv s \<and> cvw s High = Running"
    and ex: "exec MutexAndTwoBoolPriorityMutex e s = Some s'"
  shows "before_high_wait (ctl s' High) \<and> handles_inv s' \<and> cvw s' High = Running"
proof -
  from inv have h: "handles_inv s \<and> cvw s High = Running" by simp
  note hs = pref_handles_step [OF pt h ex]
  have "before_high_wait (ctl s' High)"
  proof (cases "e = Run High")
    case False
    with exec_ctl_other [OF ex, of High] inv show ?thesis by simp
  next
    case True
    from inv have "before_high_wait (ctl s High)" by simp
    then show ?thesis
      unfolding before_high_wait_def
      apply (elim disjE)
      using h ex True
      apply (auto simp: handles_inv_def run_control_def exec_body_def high_wait_def
          MutexAndTwoBoolPriorityMutex_def split: option.splits if_splits)
      done
  qed
  with hs show ?thesis by simp
qed

lemma pref_high_reachable:
  assumes "reachable MutexAndTwoBoolPriorityMutex s"
  shows "before_high_wait (ctl s High)"
proof -
  have "before_high_wait (ctl s High) \<and> handles_inv s \<and> cvw s High = Running"
    using assms
    apply (rule class_invariant)
     apply (simp add: handles_inv_init)
     apply (simp add: init_def start_run_def before_high_wait_def)
    apply (rule pref_high_step)
      apply assumption+
    done
  then show ?thesis by simp
qed

lemma pref_wait_undefined:
  assumes r: "reachable MutexAndTwoBoolPriorityMutex s"
    and nf: "\<not> fault s"
    and c: "ctl s High = InLock high_wait"
  shows "exec MutexAndTwoBoolPriorityMutex (Run High) s = Some (s\<lparr>fault := True\<rparr>)"
  using handles_reachable(2) [OF r] nf c
  by (auto simp: exec.simps run_control_def exec_body_def high_wait_def handles_inv_def)

lemma pref_fault_step:
  assumes own: "own_inv MutexAndTwoBoolPriorityMutex s"
    and h: "handles_inv s"
    and pt: "\<And>t. at_point MutexAndTwoBoolPriorityMutex t (ctl s t)"
    and ex: "exec MutexAndTwoBoolPriorityMutex e s = Some s'"
    and f: "fault s'"
  shows "ctl s' High = InLock high_wait"
proof (cases e)
  case (Run t)
  have o: "(owner s m = Some t) = (m \<in> owned_now MutexAndTwoBoolPriorityMutex s t)" for m
    using own by (simp add: own_inv_def)
  have w: "cvw s t \<noteq> Running \<longrightarrow> waits_on (ctl s t) \<noteq> {}"
    using own by (simp add: own_inv_def)
  note pts = pref_points [OF pt [of t], simplified MutexAndTwoBoolPriorityMutex_def]
  show ?thesis
  proof (cases t)
    case Low
    from pts [simplified Low, simplified] show ?thesis
      apply (elim disjE)
      using h ex f Run Low o [of DataMutex] w
      apply (auto simp: handles_inv_def run_control_def exec_body_def reacquire_def
          MutexAndTwoBoolPriorityMutex_def owned_now_def crit_owned_def waits_on_def
          split: option.splits if_splits wait_status.splits)
      done
  next
    case High
    from pts [simplified High, simplified] show ?thesis
      apply (elim disjE)
      using h ex f Run High o [of DataMutex] w
      apply (auto simp: handles_inv_def run_control_def exec_body_def reacquire_def
          MutexAndTwoBoolPriorityMutex_def owned_now_def crit_owned_def waits_on_def
          high_wait_def split: option.splits if_splits wait_status.splits)
      done
  qed
next
  case (Spurious t)
  then show ?thesis using ex f by (auto split: if_splits)
next
  case Stop
  then show ?thesis using ex f by (auto split: if_splits)
qed

lemma pref_fault_reachable:
  assumes r: "reachable MutexAndTwoBoolPriorityMutex s" and f: "fault s"
  shows "ctl s High = InLock high_wait"
proof -
  from r obtain es where es: "run MutexAndTwoBoolPriorityMutex es init = Some s"
    unfolding reachable_def by blast
  show ?thesis
  proof (cases es rule: rev_cases)
    case Nil
    with es have "s = init" by simp
    with f show ?thesis by (simp add: init_def start_run_def)
  next
    case (snoc fs e)
    with es obtain s0 where s0: "run MutexAndTwoBoolPriorityMutex fs init = Some s0"
      and ex: "exec MutexAndTwoBoolPriorityMutex e s0 = Some s"
      by (auto simp: run_append split: option.splits)
    from s0 have r0: "reachable MutexAndTwoBoolPriorityMutex s0"
      unfolding reachable_def by blast
    from own_inv_reachable [OF wf_strategies(4) r0] handles_reachable(2) [OF r0, THEN conjunct1]
      at_point_reachable [OF r0] ex f
    show ?thesis by (rule pref_fault_step)
  qed
qed

section \<open>Mutual exclusion and the history of acquisitions\<close>

text \<open>
  \<open>holder_after h\<close> replays a history (most recent event first): \<open>Some x\<close> when the
  history is an alternation of an acquisition by a worker and the release by the same
  worker, \<open>x\<close> being the worker that holds the resource at its end, and \<open>None\<close> when some
  acquisition happens while the resource is held or some release is not by the holder.
  \<open>holder s\<close> is the worker in its critical region; \<open>holding\<close> also covers a worker
  that has finished the body of its lock call and is about to return.
\<close>

fun holder_after :: "history_event list \<Rightarrow> thread option option" where
  "holder_after [] = Some None"
| "holder_after (Acquire t # h) = (if holder_after h = Some None then Some (Some t) else None)"
| "holder_after (Release t # h) = (if holder_after h = Some (Some t) then Some None else None)"

definition holder :: "state \<Rightarrow> thread option" where
  "holder s = (if ctl s Low = Held then Some Low else if ctl s High = Held then Some High else None)"

fun holding :: "control \<Rightarrow> bool" where
  "holding (InLock js) = (js = [])"
| "holding Held = True"
| "holding c = False"

definition excl :: "state \<Rightarrow> bool" where
  "excl s \<longleftrightarrow> \<not> (holding (ctl s Low) \<and> holding (ctl s High))"

lemma holding_owned:
  assumes "own_inv S s" and "holding (ctl s t)" and "m \<in> crit_owned S t"
  shows "owner s m = Some t"
proof -
  from assms(2) have "waits_on (ctl s t) = {}" and o: "owned_at S t (ctl s t) = crit_owned S t"
    by (cases "ctl s t"; simp add: waits_on_def)+
  with assms(1) have "cvw s t = Running" by (auto simp: own_inv_def)
  with o assms(3) have "m \<in> owned_now S s t" by (simp add: owned_now_def)
  with assms(1) show ?thesis by (simp add: own_inv_def)
qed

lemma excl_mutex:
  assumes "wf S" and "m \<in> crit_owned S Low" and "m \<in> crit_owned S High" and "reachable S s"
  shows "excl s"
proof -
  have inv: "own_inv S s" using assms(1,4) by (rule own_inv_reachable)
  show ?thesis
    unfolding excl_def
  proof
    assume "holding (ctl s Low) \<and> holding (ctl s High)"
    then have "owner s m = Some Low" and "owner s m = Some High"
      using holding_owned [OF inv] assms(2,3) by blast+
    then show False by simp
  qed
qed

lemma holding_held_window: "holding c \<Longrightarrow> held_window c"
  by (cases c) auto

lemma excl_pref:
  assumes "reachable MutexAndTwoBoolPriorityMutex s"
  shows "excl s"
  using pref_inv_reachable [OF assms]
  by (auto simp: excl_def pref_inv_def dest: holding_held_window)

text \<open>The four classes, in the order of \<^verbatim>\<open>main\<close>.\<close>

definition strategies :: "priority_mutex list" where
  "strategies = [BasicPriorityMutex, TwoMutexPriorityMutex,
     MutexAndAtomicBoolPriorityMutex, MutexAndTwoBoolPriorityMutex]"

lemma excl_reachable:
  assumes "S \<in> set strategies" and "reachable S s"
  shows "excl s"
proof -
  consider "S = BasicPriorityMutex" | "S = TwoMutexPriorityMutex"
    | "S = MutexAndAtomicBoolPriorityMutex" | "S = MutexAndTwoBoolPriorityMutex"
    using assms(1) by (auto simp: strategies_def)
  then show ?thesis
  proof cases
    case 1
    show ?thesis
      using wf_strategies(1) _ _ assms(2) [unfolded 1] unfolding 1
      by (rule excl_mutex [where m = Mutex])
        (simp_all add: crit_owned_def BasicPriorityMutex_def)
  next
    case 2
    show ?thesis
      using wf_strategies(2) _ _ assms(2) [unfolded 2] unfolding 2
      by (rule excl_mutex [where m = DataMutex])
        (simp_all add: crit_owned_def TwoMutexPriorityMutex_def)
  next
    case 3
    show ?thesis
      using wf_strategies(3) _ _ assms(2) [unfolded 3] unfolding 3
      by (rule excl_mutex [where m = DataMutex])
        (simp_all add: crit_owned_def MutexAndAtomicBoolPriorityMutex_def)
  next
    case 4
    with assms(2) show ?thesis by (simp add: excl_pref)
  qed
qed

lemma exec_body_history: "exec_body t i k s = Some s' \<Longrightarrow> history s' = history s"
  by (cases i) (auto simp: exec_body_def split: option.splits if_splits)

lemma exec_history_cases:
  assumes "exec S e s = Some s'"
  shows "(history s' = history s \<and> (\<forall>u. (ctl s' u = Held) = (ctl s u = Held))) \<or>
    (\<exists>t. ctl s t = InLock [] \<and> ctl s' = (ctl s)(t := Held) \<and> history s' = Acquire t # history s) \<or>
    (\<exists>t. ctl s t = Held \<and> ctl s' = (ctl s)(t := InUnlock (unlock_prog S t)) \<and>
         history s' = Release t # history s)"
proof (cases e)
  case (Run t)
  have other: "\<And>u. u \<noteq> t \<Longrightarrow> ctl s' u = ctl s u"
    using exec_ctl_other [OF assms] Run by simp
  show ?thesis
  proof (cases "cvw s t")
    case Running
    show ?thesis
    proof (cases "ctl s t")
      case (InLock rest)
      show ?thesis
      proof (cases rest)
        case Nil
        with assms Run Running InLock
        have "ctl s t = InLock [] \<and> ctl s' = (ctl s)(t := Held) \<and>
            history s' = Acquire t # history s"
          by (auto simp: run_control_def)
        then show ?thesis by blast
      next
        case (Cons i js)
        with assms Run Running InLock have b: "exec_body t i (InLock js) s = Some s'"
          by (simp add: run_control_def)
        from exec_body_ctl [OF b] exec_body_history [OF b] InLock other
        show ?thesis by (auto split: if_splits)
      qed
    next
      case (InUnlock rest)
      show ?thesis
      proof (cases rest)
        case Nil
        then show ?thesis using assms Run Running InUnlock
          by (auto simp: run_control_def split: if_splits)
      next
        case (Cons i js)
        with assms Run Running InUnlock have b: "exec_body t i (InUnlock js) s = Some s'"
          by (simp add: run_control_def)
        from exec_body_ctl [OF b] exec_body_history [OF b] InUnlock other
        show ?thesis by (auto split: if_splits)
      qed
    next
      case Held
      with assms Run Running
      have "ctl s t = Held \<and> ctl s' = (ctl s)(t := InUnlock (unlock_prog S t)) \<and>
          history s' = Release t # history s"
        by (auto simp: run_control_def)
      then show ?thesis by blast
    qed (use assms Run Running in \<open>auto simp: run_control_def split: if_splits\<close>)
  next
    case Blocked
    then show ?thesis using assms Run by simp
  next
    case Woken
    then show ?thesis using assms Run
      by (auto simp: reacquire_def split: option.splits instr.splits if_splits)
  qed
next
  case (Spurious t)
  then show ?thesis using assms by (auto split: if_splits)
next
  case Stop
  then show ?thesis using assms by (auto split: if_splits)
qed

lemma history_step:
  assumes e: "excl s" and h: "holder_after (history s) = Some (holder s)"
    and ex: "exec S e s = Some s'"
  shows "holder_after (history s') = Some (holder s')"
  using exec_history_cases [OF ex]
proof (elim disjE exE conjE)
  assume "history s' = history s" "\<forall>u. (ctl s' u = Held) = (ctl s u = Held)"
  with h show ?thesis by (simp add: holder_def)
next
  fix t
  assume "ctl s t = InLock []" "ctl s' = (ctl s)(t := Held)" "history s' = Acquire t # history s"
  with e h show ?thesis
    by (cases t) (auto simp: excl_def holder_def split: if_splits)
next
  fix t
  assume "ctl s t = Held" "ctl s' = (ctl s)(t := InUnlock (unlock_prog S t))"
    "history s' = Release t # history s"
  with e h show ?thesis
    by (cases t) (auto simp: excl_def holder_def split: if_splits)
qed

lemma history_reachable:
  assumes S: "S \<in> set strategies" and r: "reachable S s"
  shows "holder_after (history s) = Some (holder s)"
proof -
  let ?P = "\<lambda>s. reachable S s \<and> holder_after (history s) = Some (holder s)"
  have "?P s"
    using r
  proof (rule invariant_reachable)
    have "holder_after (history init) = Some (holder init)"
      by (simp add: init_def start_run_def holder_def)
    then show "?P init" by (simp add: reachable_init)
  next
    fix s e s'
    assume p: "?P s" and ex: "exec S e s = Some s'"
    then show "?P s'"
      using history_step [OF excl_reachable [OF S], where s = s and e = e and s' = s']
        reachable_step [of S s e s']
      by simp
  qed
  then show ?thesis by simp
qed

section \<open>Steps, control points and histories: further facts\<close>




lemma flag_points_High:
  assumes "reachable MutexAndAtomicBoolPriorityMutex s"
  shows "ctl s High \<in> {Idle, Held, Exited,
     InLock [Assign V_waiting True, Lock HighPriorityLock, Assign V_waiting False],
     InLock [Lock HighPriorityLock, Assign V_waiting False],
     InLock [Assign V_waiting False], InLock [],
     InUnlock [Unlock HighPriorityLock, NotifyAll], InUnlock [NotifyAll], InUnlock []}"
  using flag_points [OF at_point_reachable [OF assms, of High]]
  by (auto simp: MutexAndAtomicBoolPriorityMutex_def)

lemma run_history_suffix:
  "run S fs s = Some s' \<Longrightarrow> \<exists>new. history s' = new @ history s"
proof (induction fs arbitrary: s)
  case Nil
  then show ?case by simp
next
  case (Cons e fs)
  then obtain s1 where e: "exec S e s = Some s1" and r: "run S fs s1 = Some s'"
    by (auto split: option.splits)
  from Cons.IH [OF r] obtain new where n: "history s' = new @ history s1" by blast
  from exec_history_cases [OF e] obtain pre where "history s1 = pre @ history s"
    by (elim disjE exE conjE) auto
  with n show ?case by simp
qed

lemma holder_after_tail: "holder_after (e # h) = Some x \<Longrightarrow> \<exists>y. holder_after h = Some y"
  by (cases e) (auto split: if_splits)

lemma holder_after_first:
  "holder_after (new @ h) = Some x \<Longrightarrow> holder_after h = Some (Some t) \<Longrightarrow> new \<noteq> [] \<Longrightarrow>
     last new = Release t"
proof (induction new arbitrary: x)
  case Nil
  then show ?case by simp
next
  case (Cons e new)
  show ?case
  proof (cases "new = []")
    case True
    with Cons.prems show ?thesis by (cases e) (auto split: if_splits)
  next
    case False
    from Cons.prems(1) obtain y where "holder_after (new @ h) = Some y"
      using holder_after_tail [of e "new @ h" x] by auto
    from Cons.IH [OF this Cons.prems(2) False] False show ?thesis by simp
  qed
qed

lemma holder_after_head:
  "holder_after l = Some (Some t) \<Longrightarrow> \<exists>l'. l = Acquire t # l'"
  by (cases l rule: holder_after.cases) (auto split: if_splits)

section \<open>Concrete schedules\<close>

text \<open>
  What a test rig can observe of a state: the two control states and the three booleans.
  In \<open>high_alone\<close> the high-priority worker runs one lock call with no contention.
\<close>

lemmas exec_defs = run_control_def exec_body_def reacquire_def init_def start_run_def
  fresh_owner_def fresh_owns_def fresh_vars_def exec.simps

definition snapshot :: "state \<Rightarrow> control \<times> control \<times> bool \<times> bool \<times> bool" where
  "snapshot s = (ctl s Low, ctl s High, vars s V_waiting, vars s V_dataHeld,
     vars s V_highPriorityWaiting)"

definition high_alone :: "event list" where
  "high_alone = [Run High, Run High, Run High, Run High, Run High]"


subsection \<open>Runs of the harness on one object\<close>














subsection \<open>Every alternating history is reachable\<close>

text \<open>
  The state in which worker \<open>x\<close> (if any) is in its critical region, owning mutex \<open>m\<close>,
  the other worker is at its loop test, and the history is \<open>h\<close>.
\<close>

definition canon :: "lockable \<Rightarrow> thread option \<Rightarrow> history_event list \<Rightarrow> state" where
  "canon m x h = \<lparr>
     owner = (case x of None \<Rightarrow> fresh_owner | Some t \<Rightarrow> fresh_owner(m := Some t)),
     owns = fresh_owns,
     vars = fresh_vars,
     ctl = (case x of None \<Rightarrow> (\<lambda>u. Idle) | Some t \<Rightarrow> (\<lambda>u. Idle)(t := Held)),
     cvw = (\<lambda>u. Running), shouldRun = True, fault = False, history = h \<rparr>"

lemma basic_acquire:
  "run BasicPriorityMutex [Run t, Run t, Run t] (canon Mutex None h) =
     Some (canon Mutex (Some t) (Acquire t # h))"
  by (cases t) (simp_all add: canon_def exec_defs BasicPriorityMutex_def fun_eq_iff)

lemma basic_release:
  "run BasicPriorityMutex [Run t, Run t, Run t] (canon Mutex (Some t) h) =
     Some (canon Mutex None (Release t # h))"
  by (cases t) (simp_all add: canon_def exec_defs BasicPriorityMutex_def fun_eq_iff)

lemma gated_acquire:
  "run TwoMutexPriorityMutex [Run t, Run t, Run t, Run t, Run t] (canon DataMutex None h) =
     Some (canon DataMutex (Some t) (Acquire t # h))"
  by (cases t) (simp_all add: canon_def exec_defs TwoMutexPriorityMutex_def fun_eq_iff)

lemma gated_release:
  "run TwoMutexPriorityMutex [Run t, Run t, Run t] (canon DataMutex (Some t) h) =
     Some (canon DataMutex None (Release t # h))"
  by (cases t) (simp_all add: canon_def exec_defs TwoMutexPriorityMutex_def fun_eq_iff)

lemma histories_reachable:
  assumes acq: "\<And>t h. \<exists>es. run S es (canon m None h) = Some (canon m (Some t) (Acquire t # h))"
    and rel: "\<And>t h. \<exists>es. run S es (canon m (Some t) h) = Some (canon m None (Release t # h))"
  shows "holder_after h = Some x \<Longrightarrow> reachable S (canon m x h)"
proof (induction h arbitrary: x)
  case Nil
  then have "canon m x [] = init" by (simp add: canon_def init_def start_run_def)
  then show ?case by (simp add: reachable_init)
next
  case (Cons e h)
  show ?case
  proof (cases e)
    case (Acquire t)
    with Cons.prems have h: "holder_after h = Some None" and x: "x = Some t"
      by (auto split: if_splits)
    from acq [where t = t and h = h] obtain es
      where "run S es (canon m None h) = Some (canon m (Some t) (Acquire t # h))" by blast
    with Cons.IH [OF h] show ?thesis unfolding x Acquire by (rule reachable_run)
  next
    case (Release t)
    with Cons.prems have h: "holder_after h = Some (Some t)" and x: "x = None"
      by (auto split: if_splits)
    from rel [where t = t and h = h] obtain es
      where "run S es (canon m (Some t) h) = Some (canon m None (Release t # h))" by blast
    with Cons.IH [OF h] show ?thesis unfolding x Release by (rule reachable_run)
  qed
qed

lemma basic_histories:
  "(\<exists>s. reachable BasicPriorityMutex s \<and> history s = h) \<longleftrightarrow> holder_after h \<noteq> None"
proof
  assume "\<exists>s. reachable BasicPriorityMutex s \<and> history s = h"
  then show "holder_after h \<noteq> None"
    using history_reachable [of BasicPriorityMutex] by (auto simp: strategies_def)
next
  assume "holder_after h \<noteq> None"
  then obtain x where "holder_after h = Some x" by blast
  then have "reachable BasicPriorityMutex (canon Mutex x h)"
    by (rule histories_reachable [rotated 2]) (blast intro: basic_acquire basic_release)+
  moreover have "history (canon Mutex x h) = h" by (simp add: canon_def)
  ultimately show "\<exists>s. reachable BasicPriorityMutex s \<and> history s = h" by blast
qed

lemma gated_histories:
  "(\<exists>s. reachable TwoMutexPriorityMutex s \<and> history s = h) \<longleftrightarrow> holder_after h \<noteq> None"
proof
  assume "\<exists>s. reachable TwoMutexPriorityMutex s \<and> history s = h"
  then show "holder_after h \<noteq> None"
    using history_reachable [of TwoMutexPriorityMutex] by (auto simp: strategies_def)
next
  assume "holder_after h \<noteq> None"
  then obtain x where "holder_after h = Some x" by blast
  then have "reachable TwoMutexPriorityMutex (canon DataMutex x h)"
    by (rule histories_reachable [rotated 2]) (blast intro: gated_acquire gated_release)+
  moreover have "history (canon DataMutex x h) = h" by (simp add: canon_def)
  ultimately show "\<exists>s. reachable TwoMutexPriorityMutex s \<and> history s = h" by blast
qed


subsection \<open>Removing the gate; exchanging the workers\<close>

text \<open>
  \<open>ungate\<close> deletes the statements on \<^verbatim>\<open>nextToAccessMutex_\<close> from a statement list and
  reads \<^verbatim>\<open>dataMutex_\<close> as the single \<^verbatim>\<open>mutex_\<close> of \<^verbatim>\<open>BasicPriorityMutex\<close>.
\<close>

fun gate_instr :: "instr \<Rightarrow> bool" where
  "gate_instr (Lock l) = (l = NextToAccessMutex)"
| "gate_instr (Unlock l) = (l = NextToAccessMutex)"
| "gate_instr i = False"

fun rename_instr :: "instr \<Rightarrow> instr" where
  "rename_instr (Lock l) = Lock (if l = DataMutex then Mutex else l)"
| "rename_instr (Unlock l) = Unlock (if l = DataMutex then Mutex else l)"
| "rename_instr i = i"

definition ungate :: "instr list \<Rightarrow> instr list" where
  "ungate js = map rename_instr (filter (\<lambda>i. \<not> gate_instr i) js)"

fun ungate_control :: "control \<Rightarrow> control" where
  "ungate_control (InLock js) = InLock (ungate js)"
| "ungate_control (InUnlock js) = InUnlock (ungate js)"
| "ungate_control c = c"

definition ungate_state :: "state \<Rightarrow> state" where
  "ungate_state s = \<lparr>
     owner = (\<lambda>l. if l = Mutex then owner s DataMutex else None),
     owns = owns s,
     vars = vars s,
     ctl = (\<lambda>t. ungate_control (ctl s t)),
     cvw = cvw s, shouldRun = shouldRun s, fault = fault s, history = history s \<rparr>"

lemma gated_points:
  assumes "reachable TwoMutexPriorityMutex s"
  shows "ctl s t \<in> {Idle, Held, Exited,
     InLock [Lock NextToAccessMutex, Lock DataMutex, Unlock NextToAccessMutex],
     InLock [Lock DataMutex, Unlock NextToAccessMutex],
     InLock [Unlock NextToAccessMutex], InLock [],
     InUnlock [Unlock DataMutex], InUnlock []}"
  using at_point_reachable [OF assms, of t]
  by (cases t; cases "ctl s t") (auto simp: TwoMutexPriorityMutex_def)

lemma gated_running:
  assumes "reachable TwoMutexPriorityMutex s"
  shows "cvw s t = Running"
proof -
  have "waits_on (ctl s t) = {}"
    using gated_points [OF assms, of t] by (auto simp: waits_on_def)
  with own_inv_reachable [OF wf_strategies(2) assms] show ?thesis
    by (auto simp: own_inv_def)
qed

lemma gated_step_explicit:
  assumes r: "reachable TwoMutexPriorityMutex s"
    and ex: "exec TwoMutexPriorityMutex (Run t) s = Some s'"
  shows "(ctl s t = Idle \<and> s' = s\<lparr>ctl := (ctl s)(t := if shouldRun s then InLock (lock_prog TwoMutexPriorityMutex t) else Exited)\<rparr>) \<or>
    (ctl s t = InLock [Lock NextToAccessMutex, Lock DataMutex, Unlock NextToAccessMutex] \<and>
       owner s NextToAccessMutex = None \<and>
       s' = s\<lparr>owner := (owner s)(NextToAccessMutex := Some t), ctl := (ctl s)(t := InLock [Lock DataMutex, Unlock NextToAccessMutex])\<rparr>) \<or>
    (ctl s t = InLock [Lock DataMutex, Unlock NextToAccessMutex] \<and>
       owner s DataMutex = None \<and>
       s' = s\<lparr>owner := (owner s)(DataMutex := Some t), ctl := (ctl s)(t := InLock [Unlock NextToAccessMutex])\<rparr>) \<or>
    (ctl s t = InLock [Unlock NextToAccessMutex] \<and> owner s DataMutex = Some t \<and>
       s' = s\<lparr>owner := (owner s)(NextToAccessMutex := None), ctl := (ctl s)(t := InLock [])\<rparr>) \<or>
    (ctl s t = InLock [] \<and> owner s DataMutex = Some t \<and>
       s' = s\<lparr>ctl := (ctl s)(t := Held), history := Acquire t # history s\<rparr>) \<or>
    (ctl s t = Held \<and> owner s DataMutex = Some t \<and>
       s' = s\<lparr>ctl := (ctl s)(t := InUnlock [Unlock DataMutex]), history := Release t # history s\<rparr>) \<or>
    (ctl s t = InUnlock [Unlock DataMutex] \<and> owner s DataMutex = Some t \<and>
       s' = s\<lparr>owner := (owner s)(DataMutex := None), ctl := (ctl s)(t := InUnlock [])\<rparr>) \<or>
    (ctl s t = InUnlock [] \<and> s' = s\<lparr>ctl := (ctl s)(t := Idle)\<rparr>)"
proof -
  note own = own_inv_reachable [OF wf_strategies(2) r]
  have o: "(owner s m = Some t) = (m \<in> owned_now TwoMutexPriorityMutex s t)" for m
    using own by (simp add: own_inv_def)
  have rn: "cvw s t = Running" using gated_running [OF r] .
  have nh: "owns s l = False" for l
    using handles_reachable(4) [OF r] by (simp add: no_handles_def)
  have ow: "(owns s)(l := False) = owns s" for l
    using nh by (simp add: fun_eq_iff)
  from gated_points [OF r, of t] show ?thesis
    apply (simp only: insert_iff empty_iff)
    apply (elim disjE)
    using ex rn o [of NextToAccessMutex] o [of DataMutex] nh ow
    apply (cases t; auto simp: run_control_def exec_body_def
        TwoMutexPriorityMutex_def owned_now_def crit_owned_def
        split: option.splits if_splits)+
    done
qed


lemma gated_refines_basic:
  assumes r: "reachable TwoMutexPriorityMutex s"
    and ex: "exec TwoMutexPriorityMutex e s = Some s'"
  shows "ungate_state s' = ungate_state s \<or>
         exec BasicPriorityMutex e (ungate_state s) = Some (ungate_state s')"
proof (cases e)
  case (Run t)
  have rn: "cvw s t = Running" using gated_running [OF r] .
  have nf: "\<not> fault s" using ex by (rule exec_no_fault)
  have nh: "owns s l = False" for l
    using handles_reachable(4) [OF r] by (simp add: no_handles_def)
  have ow: "(owns s)(l := False) = owns s" for l
    using nh by (simp add: fun_eq_iff)
  from ex Run have "exec TwoMutexPriorityMutex (Run t) s = Some s'" by simp
  from gated_step_explicit [OF r this] show ?thesis
    apply (elim disjE conjE)
    using Run rn nf nh ow
           apply (cases t; simp add: ungate_state_def ungate_def run_control_def exec_body_def
        TwoMutexPriorityMutex_def BasicPriorityMutex_def fun_eq_iff)+
    done
next
  case (Spurious t)
  with ex gated_running [OF r, of t] show ?thesis by simp
next
  case Stop
  with ex show ?thesis by (auto simp: ungate_state_def split: if_splits)
qed

text \<open>
  Exchanging the two workers everywhere in a state: who owns each mutex, the control and
  wait states, and the history.
\<close>

fun swap :: "thread \<Rightarrow> thread" where
  "swap Low = High"
| "swap High = Low"

fun swap_event :: "event \<Rightarrow> event" where
  "swap_event (Run t) = Run (swap t)"
| "swap_event (Spurious t) = Spurious (swap t)"
| "swap_event Stop = Stop"

fun swap_history :: "history_event \<Rightarrow> history_event" where
  "swap_history (Acquire t) = Acquire (swap t)"
| "swap_history (Release t) = Release (swap t)"

definition swap_state :: "state \<Rightarrow> state" where
  "swap_state s = \<lparr>
     owner = (\<lambda>l. map_option swap (owner s l)),
     owns = owns s,
     vars = vars s,
     ctl = (\<lambda>t. ctl s (swap t)),
     cvw = (\<lambda>t. cvw s (swap t)),
     shouldRun = shouldRun s, fault = fault s,
     history = map swap_history (history s) \<rparr>"

lemma swap_swap [simp]: "swap (swap t) = t"
  by (cases t) simp_all

lemma swap_eq [simp]: "(swap t = swap u) = (t = u)" "(swap t = u) = (t = swap u)"
  by (cases t; cases u; simp)+

lemma exec_instr_swap:
  "exec_instr (swap t) i (swap_state s) =
     map_option (\<lambda>(b, s'). (b, swap_state s')) (exec_instr t i s)"
  by (cases i) (auto simp: swap_state_def fun_eq_iff split: option.splits)

lemma exec_body_swap:
  "exec_body (swap t) i k (swap_state s) = map_option swap_state (exec_body t i k s)"
  unfolding exec_body_def exec_instr_swap
  by (cases "exec_instr t i s") (auto simp: swap_state_def fun_eq_iff)

lemma reacquire_swap:
  "reacquire (swap t) (swap_state s) = map_option swap_state (reacquire t s)"
  by (auto simp: reacquire_def swap_state_def fun_eq_iff split: option.splits instr.splits)

lemma run_control_swap:
  assumes "lockLowPriority S = lockHighPriority S" "unlockLowPriority S = unlockHighPriority S"
  shows "run_control S (swap t) (swap_state s) = map_option swap_state (run_control S t s)"
proof -
  have p: "lock_prog S (swap t) = lock_prog S t" "unlock_prog S (swap t) = unlock_prog S t"
    using assms by (cases t; simp)+
  have c: "ctl (swap_state s) (swap t) = ctl s t" "shouldRun (swap_state s) = shouldRun s"
    by (simp_all add: swap_state_def)
  show ?thesis
  proof (cases "ctl s t")
    case (InLock rest)
    show ?thesis
    proof (cases rest)
      case Nil
      with InLock c show ?thesis
        by (auto simp: run_control_def swap_state_def fun_eq_iff)
    next
      case (Cons i js)
      with InLock c show ?thesis
        by (simp add: run_control_def exec_body_swap)
    qed
  next
    case (InUnlock rest)
    show ?thesis
    proof (cases rest)
      case Nil
      with InUnlock c show ?thesis
        by (auto simp: run_control_def swap_state_def fun_eq_iff)
    next
      case (Cons i js)
      with InUnlock c show ?thesis
        by (simp add: run_control_def exec_body_swap)
    qed
  qed (use c p in \<open>auto simp: run_control_def swap_state_def fun_eq_iff\<close>)
qed

lemma exec_swap:
  assumes "lockLowPriority S = lockHighPriority S" "unlockLowPriority S = unlockHighPriority S"
  shows "exec S (swap_event e) (swap_state s) = map_option swap_state (exec S e s)"
proof (cases e)
  case (Run t)
  have "cvw (swap_state s) (swap t) = cvw s t" "fault (swap_state s) = fault s"
    by (simp_all add: swap_state_def)
  then show ?thesis using Run run_control_swap [OF assms] reacquire_swap
    by (cases "cvw s t") (simp_all add: exec.simps)
next
  case (Spurious t)
  then show ?thesis by (auto simp: exec.simps swap_state_def fun_eq_iff)
next
  case Stop
  then show ?thesis by (auto simp: exec.simps swap_state_def)
qed

section \<open>Defined and undefined runs\<close>

text \<open>
  The three classes whose statements never fault. In them every run is defined, the two
  workers are never both in their critical region, and the history of lock returns and
  unlock calls is an alternation of an acquisition and the release by the same worker.
\<close>

definition sound_strategies :: "priority_mutex list" where
  "sound_strategies =
     [BasicPriorityMutex, TwoMutexPriorityMutex, MutexAndAtomicBoolPriorityMutex]"

lemma mutual_exclusion_sound:
  assumes "S \<in> set sound_strategies" and "run S es init = Some s"
  shows "\<not> fault s \<and> \<not> (ctl s Low = Held \<and> ctl s High = Held) \<and>
         holder_after (history s) = Some (holder s)"
proof -
  from assms(2) have r: "reachable S s" unfolding reachable_def by blast
  from assms(1) have S: "S \<in> set strategies"
    by (auto simp: sound_strategies_def strategies_def)
  from assms(1) have "S \<in> {BasicPriorityMutex, TwoMutexPriorityMutex, MutexAndAtomicBoolPriorityMutex}"
    by (auto simp: sound_strategies_def)
  then have "\<not> fault s" using r by (rule no_fault_reachable)
  moreover from excl_reachable [OF S r] have "\<not> (ctl s Low = Held \<and> ctl s High = Held)"
    by (auto simp: excl_def)
  moreover note history_reachable [OF S r]
  ultimately show ?thesis by simp
qed

text \<open>
  In the atomic-boolean class a high-priority lock call does not return while the
  low-priority worker is in its critical region: if the low-priority worker is in its
  critical region in a reachable state \<open>s\<close> and a continuation leads to a state in which
  a high-priority lock call has returned, the low-priority unlock call comes first in the
  history after \<open>s\<close>.
\<close>

lemma flagged_no_preemption:
  assumes es: "run MutexAndAtomicBoolPriorityMutex es init = Some s" and low: "ctl s Low = Held"
    and fs: "run MutexAndAtomicBoolPriorityMutex fs s = Some s'" and high: "ctl s' High = Held"
  shows "(\<exists>mid. history s' = Acquire High # mid @ Release Low # history s) \<and>
         ctl s' Low \<noteq> Held \<and> owner s' DataMutex = Some High \<and> \<not> fault s'"
proof -
  let ?S = MutexAndAtomicBoolPriorityMutex
  have S': "?S \<in> set strategies" by (simp add: strategies_def)
  from es have r: "reachable ?S s" unfolding reachable_def by blast
  from r fs have r': "reachable ?S s'" by (rule reachable_run)
  from excl_reachable [OF S' r'] high have nl: "ctl s' Low \<noteq> Held"
    by (auto simp: excl_def)
  from history_reachable [OF S' r] low have h: "holder_after (history s) = Some (Some Low)"
    by (simp add: holder_def)
  from history_reachable [OF S' r'] high nl
  have h': "holder_after (history s') = Some (Some High)"
    by (simp add: holder_def)
  from run_history_suffix [OF fs] obtain new where n: "history s' = new @ history s" by blast
  from h h' n have ne: "new \<noteq> []" by auto
  from holder_after_first [OF h' [unfolded n] h ne] have l: "last new = Release Low" .
  from holder_after_head [OF h'] n ne obtain rest where hd: "new = Acquire High # rest"
    by (cases new) auto
  with l have "rest \<noteq> []" by auto
  with l hd have "rest = butlast rest @ [Release Low]"
    by (metis append_butlast_last_id last_ConsR)
  with hd n have "history s' = Acquire High # butlast rest @ Release Low # history s"
    by (metis append.assoc append_Cons append_Nil)
  then have 1: "\<exists>mid. history s' = Acquire High # mid @ Release Low # history s" by blast
  have "holding (ctl s' High)" using high by simp
  moreover have "DataMutex \<in> crit_owned ?S High"
    by (simp add: crit_owned_def MutexAndAtomicBoolPriorityMutex_def)
  moreover have "own_inv ?S s'" using wf_strategies(3) r' by (rule own_inv_reachable)
  ultimately have 3: "owner s' DataMutex = Some High" using holding_owned by blast
  have 4: "\<not> fault s'" using r' by (intro no_fault_reachable [of ?S]) simp_all
  from 1 nl 3 4 show ?thesis by (intro conjI)
qed

text \<open>
  In the two-boolean class no run takes the high-priority worker past the wait of
  \<^verbatim>\<open>lockHighPriority\<close>: its lock call never returns in a defined run, and a run that has
  become undefined has done so at that wait.
\<close>

lemma pref_high_never_returns:
  assumes "run MutexAndTwoBoolPriorityMutex es init = Some s"
  shows "before_high_wait (ctl s High) \<and> ctl s High \<noteq> Held \<and>
         (fault s \<longrightarrow> ctl s High = InLock high_wait)"
proof -
  from assms have r: "reachable MutexAndTwoBoolPriorityMutex s"
    unfolding reachable_def by blast
  from pref_high_reachable [OF r] have b: "before_high_wait (ctl s High)" .
  then have "ctl s High \<noteq> Held" by (auto simp: before_high_wait_def)
  with b pref_fault_reachable [OF r] show ?thesis by simp
qed

text \<open>
  So in every state of every run of that class \<^verbatim>\<open>dataHeld_\<close> is true exactly while the
  low-priority worker is between its \<^verbatim>\<open>dataHeld_ = true\<close> and its \<^verbatim>\<open>dataHeld_ = false\<close>.
\<close>

lemma pref_dataHeld_low_window:
  assumes "run MutexAndTwoBoolPriorityMutex es init = Some s"
  shows "vars s V_dataHeld = held_window (ctl s Low)"
proof -
  from assms have r: "reachable MutexAndTwoBoolPriorityMutex s"
    unfolding reachable_def by blast
  from pref_high_reachable [OF r] have "\<not> held_window (ctl s High)"
    by (auto simp: before_high_wait_def high_wait_def MutexAndTwoBoolPriorityMutex_def)
  with pref_inv_reachable [OF r] show ?thesis by (simp add: pref_inv_def)
qed

subsection \<open>A contended call of the two-boolean class\<close>

text \<open>
  The low-priority worker runs \<^verbatim>\<open>lockLowPriority\<close> to its return (the loop test, the four
  statements, the return) and is in its critical region. The high-priority worker then
  calls \<^verbatim>\<open>lockHighPriority\<close>: after the loop test, \<^verbatim>\<open>highPriorityLock_.lock()\<close> and
  \<^verbatim>\<open>highPriorityWaiting_ = true\<close> it is at the wait, and its next step is the call
  \<^verbatim>\<open>cv_.wait(lowPriorityLock_, ...)\<close>.
\<close>

definition low_acquires :: "event list" where
  "low_acquires = [Run Low, Run Low, Run Low, Run Low, Run Low, Run Low]"

definition high_reaches_wait :: "event list" where
  "high_reaches_wait = [Run High, Run High, Run High]"


definition wait_probe :: "state \<Rightarrow> control \<times> wait_status \<times> bool \<times> bool \<times> bool" where
  "wait_probe s = (ctl s High, cvw s High, vars s V_highPriorityWaiting, vars s V_dataHeld,
     fault s)"



lemma contended_call_states:
  "\<exists>s. run MutexAndTwoBoolPriorityMutex (low_acquires @ high_reaches_wait) init = Some s \<and>
     ctl s Low = Held \<and> ctl s High = InLock high_wait \<and> cvw s High = Running \<and>
     vars s V_dataHeld \<and> vars s V_highPriorityWaiting \<and> \<not> fault s \<and>
     owner s DataMutex = Some High \<and> owns s HighPriorityLock \<and> \<not> owns s LowPriorityLock \<and>
     history s = [Acquire Low]"
  by (simp add: low_acquires_def high_reaches_wait_def high_wait_def exec_defs
      MutexAndTwoBoolPriorityMutex_def)

section \<open>The harness object and the sweep of \<^verbatim>\<open>main\<close>\<close>

subsection \<open>Construction of \<^verbatim>\<open>ContentionTest\<close>\<close>

text \<open>
  \<^verbatim>\<open>chrono::microseconds\<close> counts ticks in a signed 64-bit integer; the model computes
  nothing with a duration, so it is an \<open>int\<close>. The constructor is a member initialiser
  list with an empty body: it stores its arguments and has no failing branch. The result
  type has a branch for a rejected configuration so that "rejected" can be said at all.
\<close>

record contention_test =
  priorityMutex :: priority_mutex
  lowPrioWorkTime :: int
  highPrioWorkTime :: int
  highPrioSleepTime :: int

definition ContentionTest ::
  "priority_mutex \<Rightarrow> int \<Rightarrow> int \<Rightarrow> int \<Rightarrow> string + contention_test" where
  "ContentionTest pm lowWork highWork highSleep =
     Inr \<lparr> priorityMutex = pm, lowPrioWorkTime = lowWork, highPrioWorkTime = highWork,
           highPrioSleepTime = highSleep \<rparr>"

subsection \<open>The sweep\<close>

definition priorityMutexes :: "(priority_mutex \<times> string) list" where
  "priorityMutexes =
     [(BasicPriorityMutex, ''BasicPriorityMutex''),
      (TwoMutexPriorityMutex, ''TwoMutexPriorityMutex''),
      (MutexAndAtomicBoolPriorityMutex, ''MutexAndAtomicBoolPriorityMutex''),
      (MutexAndTwoBoolPriorityMutex, ''MutexAndTwoBoolPriorityMutex'')]"

definition microseconds :: "int list" where
  "microseconds = [1, 10, 100, 1000, 10000, 100000, 1000000]"

text \<open>
  \<^verbatim>\<open>ContentionTest::run\<close> returns the two \<^verbatim>\<open>int64_t\<close> totals of the workers, converted to
  \<^verbatim>\<open>double\<close>. What the totals are depends on the scheduling of the run, so the sweep is
  modelled for an arbitrary outcome of each run: \<open>H name (low, high, sleep)\<close> is the pair of
  totals of the run of the named class on that combination. A \<^verbatim>\<open>double\<close> obtained from an
  \<^verbatim>\<open>int64_t\<close> is finite, and is modelled by the real number it denotes (the conversion is
  exact below \<open>2 ^ 53\<close> nanoseconds, 104 days; a run lasts 120 seconds).
\<close>

type_synonym combination = "int \<times> int \<times> int"
type_synonym harness = "string \<Rightarrow> combination \<Rightarrow> 64 word \<times> 64 word"

definition to_double :: "64 word \<Rightarrow> real" where
  "to_double w = real_of_int (sint w)"

definition test_run :: "harness \<Rightarrow> string \<Rightarrow> combination \<Rightarrow> real \<times> real" where
  "test_run H name c = (to_double (fst (H name c)), to_double (snd (H name c)))"

text \<open>\<^verbatim>\<open>numeric_limits<double>::max()\<close>.\<close>

definition DBL_MAX :: real where
  "DBL_MAX = (2 ^ 53 - 1) * 2 ^ 971"

record best =
  bestLowName :: string
  bestHighName :: string
  bestLow :: real
  bestHigh :: real

definition best_init :: best where
  "best_init = \<lparr> bestLowName = '''', bestHighName = '''', bestLow = 0, bestHigh = DBL_MAX \<rparr>"

text \<open>The two \<^verbatim>\<open>if\<close> statements after a run, for the class \<open>name\<close> and its result \<open>r\<close>.\<close>

definition update_best :: "string \<Rightarrow> real \<times> real \<Rightarrow> best \<Rightarrow> best" where
  "update_best name r b =
     (let b1 = (if fst r > bestLow b then b\<lparr>bestLow := fst r, bestLowName := name\<rparr> else b)
      in if snd r < bestHigh b1 then b1\<lparr>bestHigh := snd r, bestHighName := name\<rparr> else b1)"

text \<open>
  The loop over \<^verbatim>\<open>priorityMutexes\<close> for one combination. The second component lists the
  harness runs performed, in order.
\<close>

fun strategy_loop ::
  "harness \<Rightarrow> combination \<Rightarrow> (priority_mutex \<times> string) list \<Rightarrow>
     best \<times> (string \<times> combination) list \<Rightarrow> best \<times> (string \<times> combination) list" where
  "strategy_loop H c [] (b, rs) = (b, rs)"
| "strategy_loop H c (pm # pms) (b, rs) =
     strategy_loop H c pms (update_best (snd pm) (test_run H (snd pm) c) b, rs @ [(snd pm, c)])"

record sweep =
  winnerCountForLow :: "string \<rightharpoonup> int"
  winnerCountForHigh :: "string \<rightharpoonup> int"
  harness_runs :: "(string \<times> combination) list"

text \<open>\<^verbatim>\<open>m[k] += 1\<close> on a \<^verbatim>\<open>map<string, int>\<close>: a missing key starts at zero.\<close>

definition incr :: "(string \<rightharpoonup> int) \<Rightarrow> string \<Rightarrow> (string \<rightharpoonup> int)" where
  "incr m k = m(k \<mapsto> (case m k of None \<Rightarrow> 0 | Some n \<Rightarrow> n) + 1)"

definition combination_body :: "harness \<Rightarrow> combination \<Rightarrow> sweep \<Rightarrow> sweep" where
  "combination_body H c sw =
     (case strategy_loop H c priorityMutexes (best_init, harness_runs sw) of
        (b, rs) \<Rightarrow>
          \<lparr> winnerCountForLow = incr (winnerCountForLow sw) (bestLowName b),
            winnerCountForHigh = incr (winnerCountForHigh sw) (bestHighName b),
            harness_runs = rs \<rparr>)"

definition sweep_init :: sweep where
  "sweep_init = \<lparr> winnerCountForLow = Map.empty, winnerCountForHigh = Map.empty,
     harness_runs = [] \<rparr>"

text \<open>The three nested loops of \<^verbatim>\<open>main\<close>; its result is what \<^verbatim>\<open>main\<close> then prints.\<close>

definition sweep_main :: "harness \<Rightarrow> sweep" where
  "sweep_main H =
     fold (\<lambda>lowWork.
       fold (\<lambda>highWork.
         fold (\<lambda>highSleep. combination_body H (lowWork, highWork, highSleep))
           microseconds)
         microseconds)
       microseconds sweep_init"

text \<open>
  The combinations in the order the nested loops visit them, and the names under which
  the wins of a combination are counted.
\<close>

definition combinations :: "combination list" where
  "combinations =
     concat (map (\<lambda>l. concat (map (\<lambda>h. map (\<lambda>z. (l, h, z)) microseconds) microseconds))
       microseconds)"

definition low_winner :: "harness \<Rightarrow> combination \<Rightarrow> string" where
  "low_winner H c = bestLowName (fst (strategy_loop H c priorityMutexes (best_init, [])))"

definition high_winner :: "harness \<Rightarrow> combination \<Rightarrow> string" where
  "high_winner H c = bestHighName (fst (strategy_loop H c priorityMutexes (best_init, [])))"

lemma strategy_loop_runs:
  "strategy_loop H c pms (b, rs) =
     (fst (strategy_loop H c pms (b, [])), rs @ map (\<lambda>pm. (snd pm, c)) pms)"
proof (induction pms arbitrary: b rs)
  case Nil
  then show ?case by simp
next
  case (Cons pm pms)
  show ?case
    by (simp add: Cons.IH [of _ "rs @ [(snd pm, c)]"] Cons.IH [of _ "[(snd pm, c)]"])
qed

lemma combination_body_eq:
  "combination_body H c sw =
     \<lparr> winnerCountForLow = incr (winnerCountForLow sw) (low_winner H c),
       winnerCountForHigh = incr (winnerCountForHigh sw) (high_winner H c),
       harness_runs = harness_runs sw @ map (\<lambda>pm. (snd pm, c)) priorityMutexes \<rparr>"
  unfolding combination_body_def low_winner_def high_winner_def
  by (subst strategy_loop_runs) simp

lemma fold_concat_map: "fold f (concat (map g xs)) = fold (\<lambda>x. fold f (g x)) xs"
  by (induction xs) (simp_all add: fun_eq_iff)

lemma fold_map_fun: "fold f (map g xs) = fold (\<lambda>x. f (g x)) xs"
  by (induction xs) (simp_all add: fun_eq_iff)

lemma sweep_main_fold: "sweep_main H = fold (combination_body H) combinations sweep_init"
  by (simp add: sweep_main_def combinations_def fold_concat_map fold_map_fun)

lemma fold_incr:
  "fold (\<lambda>k m. incr m k) ks m n =
     (if n \<in> set ks then Some ((case m n of None \<Rightarrow> 0 | Some j \<Rightarrow> j) + int (count_list ks n))
      else m n)"
  by (induction ks arbitrary: m) (auto simp: incr_def)

lemma sweep_fold_fields:
  "fold (combination_body H) cs sw =
     \<lparr> winnerCountForLow = fold (\<lambda>k m. incr m k) (map (low_winner H) cs) (winnerCountForLow sw),
       winnerCountForHigh = fold (\<lambda>k m. incr m k) (map (high_winner H) cs) (winnerCountForHigh sw),
       harness_runs = harness_runs sw @
         concat (map (\<lambda>c. map (\<lambda>pm. (snd pm, c)) priorityMutexes) cs) \<rparr>"
proof (induction cs arbitrary: sw)
  case Nil
  then show ?case by simp
next
  case (Cons c cs)
  show ?case
    unfolding fold_Cons comp_apply Cons.IH
    by (simp add: combination_body_eq)
qed


subsection \<open>The winner of one combination\<close>

text \<open>
  The two results of the run of a class on a combination, and the winner selection of one
  combination without the list of runs.
\<close>

definition low_time :: "harness \<Rightarrow> combination \<Rightarrow> priority_mutex \<times> string \<Rightarrow> real" where
  "low_time H c pm = fst (test_run H (snd pm) c)"

definition high_latency :: "harness \<Rightarrow> combination \<Rightarrow> priority_mutex \<times> string \<Rightarrow> real" where
  "high_latency H c pm = snd (test_run H (snd pm) c)"

definition loop_best ::
  "harness \<Rightarrow> combination \<Rightarrow> (priority_mutex \<times> string) list \<Rightarrow> best \<Rightarrow> best" where
  "loop_best H c pms b = fst (strategy_loop H c pms (b, []))"

lemma loop_best_Nil: "loop_best H c [] b = b"
  by (simp add: loop_best_def)

lemma loop_best_Cons:
  "loop_best H c (pm # pms) b = loop_best H c pms (update_best (snd pm) (test_run H (snd pm) c) b)"
  unfolding loop_best_def
  by (simp add: strategy_loop_runs [of H c pms _ "[(snd pm, c)]"])

lemma update_best_low:
  "bestLow (update_best n r b) = (if bestLow b < fst r then fst r else bestLow b)"
  "bestLowName (update_best n r b) = (if bestLow b < fst r then n else bestLowName b)"
  by (simp_all add: update_best_def Let_def)

lemma update_best_high:
  "bestHigh (update_best n r b) = (if snd r < bestHigh b then snd r else bestHigh b)"
  "bestHighName (update_best n r b) = (if snd r < bestHigh b then n else bestHighName b)"
  by (simp_all add: update_best_def Let_def)

lemma low_unchanged:
  "\<forall>p \<in> set pms. low_time H c p \<le> bestLow b \<Longrightarrow>
     bestLow (loop_best H c pms b) = bestLow b \<and>
     bestLowName (loop_best H c pms b) = bestLowName b"
  by (induction pms arbitrary: b)
    (simp_all add: loop_best_Nil loop_best_Cons update_best_low low_time_def)

lemma high_unchanged:
  "\<forall>p \<in> set pms. bestHigh b \<le> high_latency H c p \<Longrightarrow>
     bestHigh (loop_best H c pms b) = bestHigh b \<and>
     bestHighName (loop_best H c pms b) = bestHighName b"
  by (induction pms arbitrary: b)
    (simp_all add: loop_best_Nil loop_best_Cons update_best_high high_latency_def)

lemma low_changed:
  "\<exists>p \<in> set pms. bestLow b < low_time H c p \<Longrightarrow>
     \<exists>pre p post. pms = pre @ p # post \<and>
       bestLowName (loop_best H c pms b) = snd p \<and>
       bestLow (loop_best H c pms b) = low_time H c p \<and>
       bestLow b < low_time H c p \<and>
       (\<forall>q \<in> set pre. low_time H c q < low_time H c p) \<and>
       (\<forall>q \<in> set post. low_time H c q \<le> low_time H c p)"
proof (induction pms arbitrary: b)
  case Nil
  then show ?case by simp
next
  case (Cons a rest)
  let ?b = "update_best (snd a) (test_run H (snd a) c) b"
  have step: "loop_best H c (a # rest) b = loop_best H c rest ?b" by (rule loop_best_Cons)
  show ?case
  proof (cases "bestLow b < low_time H c a")
    case True
    then have b': "bestLow ?b = low_time H c a" "bestLowName ?b = snd a"
      by (simp_all add: update_best_low low_time_def)
    show ?thesis
    proof (cases "\<exists>p \<in> set rest. low_time H c a < low_time H c p")
      case False
      then have "\<forall>p \<in> set rest. low_time H c p \<le> bestLow ?b" using b' by auto
      from low_unchanged [OF this] b'
      have "bestLowName (loop_best H c rest ?b) = snd a"
        "bestLow (loop_best H c rest ?b) = low_time H c a" by simp_all
      with step True False show ?thesis
        by (intro exI [of _ "[]"] exI [of _ a] exI [of _ rest]) auto
    next
      case ex: True
      then have "\<exists>p \<in> set rest. bestLow ?b < low_time H c p" using b' by simp
      from Cons.IH [OF this] obtain pre p post where
        r: "rest = pre @ p # post"
        and n: "bestLowName (loop_best H c rest ?b) = snd p"
          "bestLow (loop_best H c rest ?b) = low_time H c p"
        and g: "bestLow ?b < low_time H c p"
        and o: "\<forall>q \<in> set pre. low_time H c q < low_time H c p"
          "\<forall>q \<in> set post. low_time H c q \<le> low_time H c p"
        by blast
      from g b' True have "low_time H c a < low_time H c p" "bestLow b < low_time H c p"
        by simp_all
      with r n o step show ?thesis
        by (intro exI [of _ "a # pre"] exI [of _ p] exI [of _ post]) auto
    qed
  next
    case False
    then have b': "bestLow ?b = bestLow b" "bestLowName ?b = bestLowName b"
      by (simp_all add: update_best_low low_time_def)
    from Cons.prems False have "\<exists>p \<in> set rest. bestLow ?b < low_time H c p"
      using b' by auto
    from Cons.IH [OF this] obtain pre p post where
      r: "rest = pre @ p # post"
      and n: "bestLowName (loop_best H c rest ?b) = snd p"
        "bestLow (loop_best H c rest ?b) = low_time H c p"
      and g: "bestLow ?b < low_time H c p"
      and o: "\<forall>q \<in> set pre. low_time H c q < low_time H c p"
        "\<forall>q \<in> set post. low_time H c q \<le> low_time H c p"
      by blast
    from g b' False have "low_time H c a < low_time H c p" "bestLow b < low_time H c p"
      by simp_all
    with r n o step show ?thesis
      by (intro exI [of _ "a # pre"] exI [of _ p] exI [of _ post]) auto
  qed
qed

lemma high_changed:
  "\<exists>p \<in> set pms. high_latency H c p < bestHigh b \<Longrightarrow>
     \<exists>pre p post. pms = pre @ p # post \<and>
       bestHighName (loop_best H c pms b) = snd p \<and>
       bestHigh (loop_best H c pms b) = high_latency H c p \<and>
       high_latency H c p < bestHigh b \<and>
       (\<forall>q \<in> set pre. high_latency H c p < high_latency H c q) \<and>
       (\<forall>q \<in> set post. high_latency H c p \<le> high_latency H c q)"
proof (induction pms arbitrary: b)
  case Nil
  then show ?case by simp
next
  case (Cons a rest)
  let ?b = "update_best (snd a) (test_run H (snd a) c) b"
  have step: "loop_best H c (a # rest) b = loop_best H c rest ?b" by (rule loop_best_Cons)
  show ?case
  proof (cases "high_latency H c a < bestHigh b")
    case True
    then have b': "bestHigh ?b = high_latency H c a" "bestHighName ?b = snd a"
      by (simp_all add: update_best_high high_latency_def)
    show ?thesis
    proof (cases "\<exists>p \<in> set rest. high_latency H c p < high_latency H c a")
      case False
      then have "\<forall>p \<in> set rest. bestHigh ?b \<le> high_latency H c p" using b' by auto
      from high_unchanged [OF this] b'
      have "bestHighName (loop_best H c rest ?b) = snd a"
        "bestHigh (loop_best H c rest ?b) = high_latency H c a" by simp_all
      with step True False show ?thesis
        by (intro exI [of _ "[]"] exI [of _ a] exI [of _ rest]) auto
    next
      case ex: True
      then have "\<exists>p \<in> set rest. high_latency H c p < bestHigh ?b" using b' by simp
      from Cons.IH [OF this] obtain pre p post where
        r: "rest = pre @ p # post"
        and n: "bestHighName (loop_best H c rest ?b) = snd p"
          "bestHigh (loop_best H c rest ?b) = high_latency H c p"
        and g: "high_latency H c p < bestHigh ?b"
        and o: "\<forall>q \<in> set pre. high_latency H c p < high_latency H c q"
          "\<forall>q \<in> set post. high_latency H c p \<le> high_latency H c q"
        by blast
      from g b' True have "high_latency H c p < high_latency H c a"
        "high_latency H c p < bestHigh b"
        by simp_all
      with r n o step show ?thesis
        by (intro exI [of _ "a # pre"] exI [of _ p] exI [of _ post]) auto
    qed
  next
    case False
    then have b': "bestHigh ?b = bestHigh b" "bestHighName ?b = bestHighName b"
      by (simp_all add: update_best_high high_latency_def)
    from Cons.prems False have "\<exists>p \<in> set rest. high_latency H c p < bestHigh ?b"
      using b' by auto
    from Cons.IH [OF this] obtain pre p post where
      r: "rest = pre @ p # post"
      and n: "bestHighName (loop_best H c rest ?b) = snd p"
        "bestHigh (loop_best H c rest ?b) = high_latency H c p"
      and g: "high_latency H c p < bestHigh ?b"
      and o: "\<forall>q \<in> set pre. high_latency H c p < high_latency H c q"
        "\<forall>q \<in> set post. high_latency H c p \<le> high_latency H c q"
      by blast
    from g b' False have "high_latency H c p < high_latency H c a"
      "high_latency H c p < bestHigh b"
      by simp_all
    with r n o step show ?thesis
      by (intro exI [of _ "a # pre"] exI [of _ p] exI [of _ post]) auto
  qed
qed

lemma to_double_less_DBL_MAX: "to_double w < DBL_MAX"
proof -
  have "sint w < 2 ^ 63" using sint_lt [of w] by simp
  then have "real_of_int (sint w) < 2 ^ 63"
    by (metis of_int_less_iff of_int_numeral of_int_power)
  also have "(2::real) ^ 63 < DBL_MAX" by (simp add: DBL_MAX_def)
  finally show ?thesis by (simp add: to_double_def)
qed

lemma high_latency_less_DBL_MAX: "high_latency H c p < DBL_MAX"
  by (simp add: high_latency_def test_run_def to_double_less_DBL_MAX)

text \<open>
  The words of the specification: a class "produced the maximum low-priority work time"
  (the minimum high-priority latency) of a combination.
\<close>

definition produced_max_low :: "harness \<Rightarrow> combination \<Rightarrow> string \<Rightarrow> bool" where
  "produced_max_low H c n \<longleftrightarrow>
     (\<exists>p \<in> set priorityMutexes. snd p = n \<and>
        (\<forall>q \<in> set priorityMutexes. low_time H c q \<le> low_time H c p))"

definition produced_min_high :: "harness \<Rightarrow> combination \<Rightarrow> string \<Rightarrow> bool" where
  "produced_min_high H c n \<longleftrightarrow>
     (\<exists>p \<in> set priorityMutexes. snd p = n \<and>
        (\<forall>q \<in> set priorityMutexes. high_latency H c p \<le> high_latency H c q))"

text \<open>Outcomes used as examples: every run reports zero, every run reports one.\<close>

definition zero_harness :: harness where
  "zero_harness = (\<lambda>name c. (0, 0))"

definition unit_harness :: harness where
  "unit_harness = (\<lambda>name c. (1, 1))"

lemma low_winner_loop: "low_winner H c = bestLowName (loop_best H c priorityMutexes best_init)"
  by (simp add: low_winner_def loop_best_def)

lemma high_winner_loop: "high_winner H c = bestHighName (loop_best H c priorityMutexes best_init)"
  by (simp add: high_winner_def loop_best_def)

lemma low_winner_none:
  assumes "\<forall>p \<in> set priorityMutexes. low_time H c p \<le> 0"
  shows "low_winner H c = ''''"
proof -
  from assms have "\<forall>p \<in> set priorityMutexes. low_time H c p \<le> bestLow best_init"
    by (simp add: best_init_def)
  from low_unchanged [OF this] show ?thesis
    by (simp add: low_winner_loop best_init_def)
qed

lemma low_winner_earliest:
  assumes "\<exists>p \<in> set priorityMutexes. 0 < low_time H c p"
  shows "\<exists>pre p post. priorityMutexes = pre @ p # post \<and> low_winner H c = snd p \<and>
     0 < low_time H c p \<and>
     (\<forall>q \<in> set pre. low_time H c q < low_time H c p) \<and>
     (\<forall>q \<in> set post. low_time H c q \<le> low_time H c p)"
proof -
  from assms have "\<exists>p \<in> set priorityMutexes. bestLow best_init < low_time H c p"
    by (simp add: best_init_def)
  from low_changed [OF this] show ?thesis
    unfolding low_winner_loop by (simp add: best_init_def) blast
qed

lemma high_winner_earliest:
  "\<exists>pre p post. priorityMutexes = pre @ p # post \<and> high_winner H c = snd p \<and>
     (\<forall>q \<in> set pre. high_latency H c p < high_latency H c q) \<and>
     (\<forall>q \<in> set post. high_latency H c p \<le> high_latency H c q)"
proof -
  have "\<exists>p \<in> set priorityMutexes. high_latency H c p < bestHigh best_init"
    by (auto simp: best_init_def priorityMutexes_def high_latency_less_DBL_MAX)
  from high_changed [OF this] show ?thesis
    unfolding high_winner_loop by blast
qed

lemma low_winner_max:
  assumes "\<exists>p \<in> set priorityMutexes. 0 < low_time H c p"
  shows "produced_max_low H c (low_winner H c)"
proof -
  from low_winner_earliest [OF assms] obtain pre p post where
    pm: "priorityMutexes = pre @ p # post" and w: "low_winner H c = snd p"
    and o: "\<forall>q \<in> set pre. low_time H c q < low_time H c p"
      "\<forall>q \<in> set post. low_time H c q \<le> low_time H c p" by blast
  have "\<forall>q \<in> set (pre @ p # post). low_time H c q \<le> low_time H c p"
    using o by (auto simp: less_imp_le)
  moreover have "p \<in> set (pre @ p # post)" by simp
  ultimately show ?thesis
    unfolding produced_max_low_def pm w by blast
qed

lemma high_winner_min: "produced_min_high H c (high_winner H c)"
proof -
  from high_winner_earliest [of H c] obtain pre p post where
    pm: "priorityMutexes = pre @ p # post" and w: "high_winner H c = snd p"
    and o: "\<forall>q \<in> set pre. high_latency H c p < high_latency H c q"
      "\<forall>q \<in> set post. high_latency H c p \<le> high_latency H c q" by blast
  have "\<forall>q \<in> set (pre @ p # post). high_latency H c p \<le> high_latency H c q"
    using o by (auto simp: less_imp_le)
  moreover have "p \<in> set (pre @ p # post)" by simp
  ultimately show ?thesis
    unfolding produced_min_high_def pm w by blast
qed

lemma sweep_main_fields:
  "winnerCountForLow (sweep_main H) n =
     (if n \<in> set (map (low_winner H) combinations)
      then Some (int (count_list (map (low_winner H) combinations) n)) else None)"
  "winnerCountForHigh (sweep_main H) n =
     (if n \<in> set (map (high_winner H) combinations)
      then Some (int (count_list (map (high_winner H) combinations) n)) else None)"
  "harness_runs (sweep_main H) =
     concat (map (\<lambda>c. map (\<lambda>pm. (snd pm, c)) priorityMutexes) combinations)"
  unfolding sweep_main_fold sweep_fold_fields
  by (simp_all add: fold_incr sweep_init_def)

lemma length_combinations: "length combinations = 343"
  by (simp add: combinations_def microseconds_def)

lemma length_harness_runs: "length (harness_runs (sweep_main H)) = 1372"
  by (simp add: sweep_main_fields(3) length_concat comp_def priorityMutexes_def
      sum_list_triv length_combinations)

section \<open>The claims\<close>


text \<open>
  C2 (as stated). The claim says that in \<^verbatim>\<open>MutexAndAtomicBoolPriorityMutex\<close> the flag
  \<^verbatim>\<open>waiting_\<close> stays true for the whole high-priority critical region and is cleared by
  \<^verbatim>\<open>unlockHighPriority\<close>. It is not so: after one uncontended \<^verbatim>\<open>lockHighPriority\<close> the
  high-priority worker holds the resource and the flag is already false.
\<close>

theorem C2_counterexample:
  "map_option snapshot (run MutexAndAtomicBoolPriorityMutex high_alone init) =
     Some (Idle, Held, False, False, False)"
  by (simp add: high_alone_def exec_defs MutexAndAtomicBoolPriorityMutex_def snapshot_def)

text \<open>
  C2 (amended). \<^verbatim>\<open>lockHighPriority\<close> sets \<^verbatim>\<open>waiting_\<close>, locks the mutex and clears
  \<^verbatim>\<open>waiting_\<close> itself before it returns; \<^verbatim>\<open>unlockHighPriority\<close> does not touch the flag. In
  every reachable state the flag is true exactly while the high-priority worker is inside
  \<^verbatim>\<open>lockHighPriority\<close> between its first and its last statement; it is false throughout
  the high-priority critical region and throughout \<^verbatim>\<open>unlockHighPriority\<close>.
\<close>

theorem C2_flag_cleared_in_lock:
  assumes "run MutexAndAtomicBoolPriorityMutex es init = Some s"
  shows "vars s V_waiting =
           (ctl s High = InLock [Lock HighPriorityLock, Assign V_waiting False] \<or>
            ctl s High = InLock [Assign V_waiting False]) \<and>
         (ctl s High = Held \<longrightarrow> \<not> vars s V_waiting) \<and>
         (\<forall>js. ctl s High = InUnlock js \<longrightarrow> \<not> vars s V_waiting)"
proof -
  from assms have r: "reachable MutexAndAtomicBoolPriorityMutex s"
    unfolding reachable_def by blast
  from flag_inv_reachable [OF r] have "vars s V_waiting = flag_window (ctl s High)"
    by (simp add: flag_inv_def)
  with flag_points_High [OF r] show ?thesis by auto
qed

theorem C2_flag_cleared_in_lock_witness:
  "\<exists>s. run MutexAndAtomicBoolPriorityMutex [Run High, Run High] init = Some s \<and>
     ctl s High = InLock [Lock HighPriorityLock, Assign V_waiting False] \<and>
     vars s V_waiting"
proof -
  have "\<exists>s. run MutexAndAtomicBoolPriorityMutex [Run High, Run High] init = Some s \<and>
     ctl s High = InLock [Lock HighPriorityLock, Assign V_waiting False]"
    by (simp add: exec_defs MutexAndAtomicBoolPriorityMutex_def)
  then obtain s where s: "run MutexAndAtomicBoolPriorityMutex [Run High, Run High] init = Some s"
    "ctl s High = InLock [Lock HighPriorityLock, Assign V_waiting False]" by blast
  from C2_flag_cleared_in_lock [OF s(1)] s show ?thesis by auto
qed

text \<open>
  C3. The protocol of \<^verbatim>\<open>MutexAndTwoBoolPriorityMutex\<close>. \<^verbatim>\<open>lockHighPriority\<close> is claimed to
  set \<^verbatim>\<open>highPriorityWaiting_\<close>, wait until \<^verbatim>\<open>dataHeld_\<close> is false and then set \<^verbatim>\<open>dataHeld_\<close>.
  It does set \<^verbatim>\<open>highPriorityWaiting_\<close> first, but it does not wait as its sibling
  \<^verbatim>\<open>lockLowPriority\<close> does: it holds \<^verbatim>\<open>dataMutex_\<close> through \<^verbatim>\<open>highPriorityLock_\<close> and passes
  \<^verbatim>\<open>lowPriorityLock_\<close> to \<^verbatim>\<open>cv_.wait\<close>. In the run evaluated here the high-priority worker
  is at that wait with \<^verbatim>\<open>highPriorityWaiting_\<close> and \<^verbatim>\<open>dataHeld_\<close> both true (the low-priority
  worker holds the resource); its next step does not release the mutex and block until
  \<^verbatim>\<open>dataHeld_\<close> is false, it sets \<open>fault\<close>, and \<^verbatim>\<open>dataHeld_ = true\<close> is never reached.
  The observations are the control point of the high-priority worker, its state with
  respect to the condition variable, \<^verbatim>\<open>highPriorityWaiting_\<close>, \<^verbatim>\<open>dataHeld_\<close> and \<open>fault\<close>.
\<close>

theorem C3_wait_of_lockHigh_undefined:
  "map_option wait_probe
     (run MutexAndTwoBoolPriorityMutex (low_acquires @ high_reaches_wait) init) =
   Some (InLock high_wait, Running, True, True, False) \<and>
   map_option wait_probe
     (run MutexAndTwoBoolPriorityMutex (low_acquires @ high_reaches_wait @ [Run High]) init) =
   Some (InLock high_wait, Running, True, True, True)"
  by (simp add: wait_probe_def low_acquires_def high_reaches_wait_def high_wait_def exec_defs
      MutexAndTwoBoolPriorityMutex_def)


text \<open>
  C5. In \<^verbatim>\<open>TwoMutexPriorityMutex\<close> the two lock functions are the same statement list
  (lock the gate, lock the data mutex, unlock the gate) and each unlock function only
  unlocks the data mutex. Deleting the gate statements gives the member functions of
  \<^verbatim>\<open>BasicPriorityMutex\<close>. Exchanging the two workers commutes with every step, so the
  class cannot tell the priorities apart. Every step of a run is, with the gate removed,
  either no step or the same worker's step of \<^verbatim>\<open>BasicPriorityMutex\<close>; and the two classes
  have the same histories of acquisitions and releases.
\<close>

theorem C5_gated_is_plain_with_a_gate:
  "lockLowPriority TwoMutexPriorityMutex =
     [Lock NextToAccessMutex, Lock DataMutex, Unlock NextToAccessMutex] \<and>
   lockHighPriority TwoMutexPriorityMutex = lockLowPriority TwoMutexPriorityMutex \<and>
   unlockLowPriority TwoMutexPriorityMutex = [Unlock DataMutex] \<and>
   unlockHighPriority TwoMutexPriorityMutex = [Unlock DataMutex] \<and>
   (\<forall>t. ungate (lock_prog TwoMutexPriorityMutex t) = lock_prog BasicPriorityMutex t \<and>
        ungate (unlock_prog TwoMutexPriorityMutex t) = unlock_prog BasicPriorityMutex t) \<and>
   (\<forall>e s. exec TwoMutexPriorityMutex (swap_event e) (swap_state s) =
        map_option swap_state (exec TwoMutexPriorityMutex e s)) \<and>
   (\<forall>e s s'. reachable TwoMutexPriorityMutex s \<and> exec TwoMutexPriorityMutex e s = Some s' \<longrightarrow>
        ungate_state s' = ungate_state s \<or>
        exec BasicPriorityMutex e (ungate_state s) = Some (ungate_state s')) \<and>
   (\<forall>h. (\<exists>s. reachable TwoMutexPriorityMutex s \<and> history s = h) \<longleftrightarrow>
        (\<exists>s. reachable BasicPriorityMutex s \<and> history s = h))"
proof -
  have 1: "lockLowPriority TwoMutexPriorityMutex =
     [Lock NextToAccessMutex, Lock DataMutex, Unlock NextToAccessMutex]"
    and 2: "lockHighPriority TwoMutexPriorityMutex = lockLowPriority TwoMutexPriorityMutex"
    and 3: "unlockLowPriority TwoMutexPriorityMutex = [Unlock DataMutex]"
    and 4: "unlockHighPriority TwoMutexPriorityMutex = [Unlock DataMutex]"
    by (simp_all add: TwoMutexPriorityMutex_def)
  have 5: "ungate (lock_prog TwoMutexPriorityMutex t) = lock_prog BasicPriorityMutex t \<and>
        ungate (unlock_prog TwoMutexPriorityMutex t) = unlock_prog BasicPriorityMutex t" for t
    by (cases t) (simp_all add: ungate_def TwoMutexPriorityMutex_def BasicPriorityMutex_def)
  have 6: "exec TwoMutexPriorityMutex (swap_event e) (swap_state s) =
        map_option swap_state (exec TwoMutexPriorityMutex e s)" for e s
    by (rule exec_swap) (simp_all add: 2 3 4)
  have 7: "reachable TwoMutexPriorityMutex s \<and> exec TwoMutexPriorityMutex e s = Some s' \<longrightarrow>
        ungate_state s' = ungate_state s \<or>
        exec BasicPriorityMutex e (ungate_state s) = Some (ungate_state s')" for e s s'
    using gated_refines_basic by blast
  have 8: "(\<exists>s. reachable TwoMutexPriorityMutex s \<and> history s = h) \<longleftrightarrow>
        (\<exists>s. reachable BasicPriorityMutex s \<and> history s = h)" for h
    unfolding gated_histories basic_histories ..
  show ?thesis
    apply (intro conjI allI)
    apply (rule 1)
    apply (rule 2)
    apply (rule 3)
    apply (rule 4)
    apply (rule 5 [THEN conjunct1])
    apply (rule 5 [THEN conjunct2])
    apply (rule 6)
    apply (rule 7)
    apply (rule 8)
    done
qed

theorem C5_gated_is_plain_with_a_gate_witness:
  "\<exists>s'. exec TwoMutexPriorityMutex (Run Low) init = Some s' \<and>
     exec BasicPriorityMutex (Run Low) (ungate_state init) = Some (ungate_state s')"
proof -
  have "\<exists>s'. exec TwoMutexPriorityMutex (Run Low) init = Some s' \<and>
     ctl s' Low = InLock (lockLowPriority TwoMutexPriorityMutex)"
    by (simp add: exec_defs)
  then obtain s' where s': "exec TwoMutexPriorityMutex (Run Low) init = Some s'"
    "ctl s' Low = InLock (lockLowPriority TwoMutexPriorityMutex)" by blast
  note th = C5_gated_is_plain_with_a_gate
  note step = th [THEN conjunct2, THEN conjunct2, THEN conjunct2, THEN conjunct2,
      THEN conjunct2, THEN conjunct2, THEN conjunct1, rule_format, of init "Run Low" s']
  have "ctl (ungate_state s') Low \<noteq> ctl (ungate_state init) Low"
    using s'(2) by (simp add: ungate_state_def init_def start_run_def)
  then have "ungate_state s' \<noteq> ungate_state init" by auto
  with step s'(1) reachable_init [of TwoMutexPriorityMutex]
  have "exec BasicPriorityMutex (Run Low) (ungate_state init) = Some (ungate_state s')"
    by blast
  with s'(1) show ?thesis by blast
qed

text \<open>
  C6 (as stated). The claim says that constructing the harness with a non-positive
  duration is rejected. The constructor has no check: with durations \<open>0\<close>, \<open>-1\<close> and \<open>0\<close>
  it yields a harness holding exactly these durations.
\<close>

theorem C6_counterexample:
  "ContentionTest BasicPriorityMutex 0 (- 1) 0 =
     Inr \<lparr> priorityMutex = BasicPriorityMutex, lowPrioWorkTime = 0, highPrioWorkTime = - 1,
           highPrioSleepTime = 0 \<rparr>"
  by (simp add: ContentionTest_def)

text \<open>
  C6 (amended). Construction of the harness never fails: for every three durations,
  positive or not, it yields a harness that stores them unchanged. That no run is made
  with a non-positive duration is a property of the sweep alone, whose seven durations are
  all positive.
\<close>

theorem C6_constructor_accepts_every_duration:
  "ContentionTest pm lowWork highWork highSleep =
     Inr \<lparr> priorityMutex = pm, lowPrioWorkTime = lowWork, highPrioWorkTime = highWork,
           highPrioSleepTime = highSleep \<rparr> \<and>
   list_all (\<lambda>d. 0 < d) microseconds"
  by (simp add: ContentionTest_def microseconds_def)




text \<open>
  C8 (as stated). The claim says that every combination gives one low-priority win to the
  class with the maximum low-priority work time. When all four runs of a combination
  report a work time of zero, the comparison against the initial bound \<open>0.0\<close> never
  succeeds: the win is counted under the empty name and no class receives it.
\<close>

theorem C8_counterexample:
  "map (winnerCountForLow (combination_body zero_harness (1, 1, 1) sweep_init))
     ('''' # map snd priorityMutexes) = [Some 1, None, None, None, None]"
proof -
  have "\<forall>p \<in> set priorityMutexes. low_time zero_harness (1, 1, 1) p \<le> 0"
    by (simp add: priorityMutexes_def low_time_def test_run_def to_double_def zero_harness_def)
  then have "low_winner zero_harness (1, 1, 1) = ''''" by (rule low_winner_none)
  then show ?thesis
    by (simp add: combination_body_eq sweep_init_def incr_def priorityMutexes_def)
qed

text \<open>
  C8 (amended). The sweep iterates the seven durations \<open>10 ^ k\<close> microseconds,
  \<open>k = 0, \<dots>, 6\<close>, independently on the three axes (343 combinations) and performs one
  harness run per class for each combination, in order (1372 runs). After the sweep the
  low-priority (high-priority) count of a name is the number of combinations it won on
  that axis. The high-priority winner of a combination is a class that produced the
  minimum latency. The low-priority winner is a class that produced the maximum work time
  whenever some class reports a positive work time; when no class does, the win is counted
  under the empty name.
\<close>

theorem C8_sweep_and_tally:
  "microseconds = map (\<lambda>k. 10 ^ k) [0..<7] \<and>
   set combinations = set microseconds \<times> set microseconds \<times> set microseconds \<and>
   length combinations = 343 \<and>
   harness_runs (sweep_main H) =
     concat (map (\<lambda>c. map (\<lambda>pm. (snd pm, c)) priorityMutexes) combinations) \<and>
   length (harness_runs (sweep_main H)) = 1372 \<and>
   (\<forall>n. winnerCountForLow (sweep_main H) n =
     (if n \<in> set (map (low_winner H) combinations)
      then Some (int (count_list (map (low_winner H) combinations) n)) else None)) \<and>
   (\<forall>n. winnerCountForHigh (sweep_main H) n =
     (if n \<in> set (map (high_winner H) combinations)
      then Some (int (count_list (map (high_winner H) combinations) n)) else None)) \<and>
   (\<forall>c. ((\<exists>p \<in> set priorityMutexes. 0 < low_time H c p) \<longrightarrow>
           produced_max_low H c (low_winner H c)) \<and>
        ((\<forall>p \<in> set priorityMutexes. low_time H c p \<le> 0) \<longrightarrow> low_winner H c = '''') \<and>
        produced_min_high H c (high_winner H c))"
proof -
  have 1: "microseconds = map (\<lambda>k. 10 ^ k) [0..<7]"
  proof -
    have "[0..<7] = [0, 1, 2, 3, 4, 5, 6::nat]" by code_simp
    then show ?thesis by (simp add: microseconds_def)
  qed
  have 2: "set combinations = set microseconds \<times> set microseconds \<times> set microseconds"
    by (auto simp: combinations_def)
  have 8: "((\<exists>p \<in> set priorityMutexes. 0 < low_time H c p) \<longrightarrow>
           produced_max_low H c (low_winner H c)) \<and>
        ((\<forall>p \<in> set priorityMutexes. low_time H c p \<le> 0) \<longrightarrow> low_winner H c = '''') \<and>
        produced_min_high H c (high_winner H c)" for c
    using low_winner_max [of H c] low_winner_none [of H c] high_winner_min [of H c] by blast
  show ?thesis
    apply (intro conjI allI)
    apply (rule 1)
    apply (rule 2)
    apply (rule length_combinations)
    apply (rule sweep_main_fields(3))
    apply (rule length_harness_runs)
    apply (rule sweep_main_fields(1))
    apply (rule sweep_main_fields(2))
    apply (rule 8 [THEN conjunct1])
    apply (rule 8 [THEN conjunct2, THEN conjunct1])
    apply (rule 8 [THEN conjunct2, THEN conjunct2])
    done
qed

theorem C8_sweep_and_tally_witness:
  "produced_max_low unit_harness (1, 1, 1) (low_winner unit_harness (1, 1, 1))"
proof -
  have "\<exists>p \<in> set priorityMutexes. 0 < low_time unit_harness (1, 1, 1) p"
    by (auto simp: priorityMutexes_def low_time_def test_run_def to_double_def unit_harness_def)
  with C8_sweep_and_tally [of unit_harness, THEN conjunct2, THEN conjunct2, THEN conjunct2,
      THEN conjunct2, THEN conjunct2, THEN conjunct2, THEN conjunct2, rule_format,
      of "(1, 1, 1)", THEN conjunct1]
  show ?thesis by blast
qed


text \<open>
  C10. The winner selection starts from the bounds \<open>0.0\<close> and the maximum double with
  empty names, and takes a class only on a strict improvement of the running best. Hence:
  if all four classes report a low-priority work time of at most zero, the low-priority
  win of the combination is counted under the empty name; otherwise the low-priority
  winner is the class with the maximum work time, every class before it in
  \<^verbatim>\<open>priorityMutexes\<close> being strictly worse (an exact tie goes to the earliest class); and
  likewise the high-priority winner has the minimum latency, every earlier class having a
  strictly larger one.
\<close>

theorem C10_strict_comparisons_and_ties:
  "bestLow best_init = 0 \<and> bestHigh best_init = DBL_MAX \<and>
   bestLowName best_init = '''' \<and> bestHighName best_init = '''' \<and>
   (\<forall>n r b. bestLowName (update_best n r b) = (if bestLow b < fst r then n else bestLowName b) \<and>
            bestLow (update_best n r b) = (if bestLow b < fst r then fst r else bestLow b) \<and>
            bestHighName (update_best n r b) =
              (if snd r < bestHigh b then n else bestHighName b) \<and>
            bestHigh (update_best n r b) = (if snd r < bestHigh b then snd r else bestHigh b)) \<and>
   (\<forall>c sw. (\<forall>p \<in> set priorityMutexes. low_time H c p \<le> 0) \<longrightarrow>
      low_winner H c = '''' \<and>
      winnerCountForLow (combination_body H c sw) '''' =
        Some ((case winnerCountForLow sw '''' of None \<Rightarrow> 0 | Some k \<Rightarrow> k) + 1)) \<and>
   (\<forall>c. (\<exists>p \<in> set priorityMutexes. 0 < low_time H c p) \<longrightarrow>
      (\<exists>pre p post. priorityMutexes = pre @ p # post \<and> low_winner H c = snd p \<and>
         0 < low_time H c p \<and>
         (\<forall>q \<in> set pre. low_time H c q < low_time H c p) \<and>
         (\<forall>q \<in> set post. low_time H c q \<le> low_time H c p))) \<and>
   (\<forall>c. \<exists>pre p post. priorityMutexes = pre @ p # post \<and> high_winner H c = snd p \<and>
         (\<forall>q \<in> set pre. high_latency H c p < high_latency H c q) \<and>
         (\<forall>q \<in> set post. high_latency H c p \<le> high_latency H c q))"
proof -
  have 1: "bestLow best_init = 0" "bestHigh best_init = DBL_MAX"
    "bestLowName best_init = ''''" "bestHighName best_init = ''''"
    by (simp_all add: best_init_def)
  have 3: "(\<forall>p \<in> set priorityMutexes. low_time H c p \<le> 0) \<longrightarrow>
      low_winner H c = '''' \<and>
      winnerCountForLow (combination_body H c sw) '''' =
        Some ((case winnerCountForLow sw '''' of None \<Rightarrow> 0 | Some k \<Rightarrow> k) + 1)" for c sw
  proof
    assume "\<forall>p \<in> set priorityMutexes. low_time H c p \<le> 0"
    from low_winner_none [OF this] show "low_winner H c = '''' \<and>
      winnerCountForLow (combination_body H c sw) '''' =
        Some ((case winnerCountForLow sw '''' of None \<Rightarrow> 0 | Some k \<Rightarrow> k) + 1)"
      by (simp add: combination_body_eq incr_def)
  qed
  have 4: "(\<exists>p \<in> set priorityMutexes. 0 < low_time H c p) \<longrightarrow>
      (\<exists>pre p post. priorityMutexes = pre @ p # post \<and> low_winner H c = snd p \<and>
         0 < low_time H c p \<and>
         (\<forall>q \<in> set pre. low_time H c q < low_time H c p) \<and>
         (\<forall>q \<in> set post. low_time H c q \<le> low_time H c p))" for c
    using low_winner_earliest [of H c] by blast
  show ?thesis
    apply (intro conjI allI)
    apply (rule 1(1))
    apply (rule 1(2))
    apply (rule 1(3))
    apply (rule 1(4))
    apply (rule update_best_low(2))
    apply (rule update_best_low(1))
    apply (rule update_best_high(2))
    apply (rule update_best_high(1))
    apply (rule 3)
    apply (rule 4)
    apply (rule high_winner_earliest)
    done
qed

theorem C10_strict_comparisons_and_ties_witness:
  "low_winner zero_harness (1, 1, 1) = '''' \<and>
   winnerCountForLow (combination_body zero_harness (1, 1, 1) sweep_init) '''' = Some 1"
proof -
  have "\<forall>p \<in> set priorityMutexes. low_time zero_harness (1, 1, 1) p \<le> 0"
    by (simp add: priorityMutexes_def low_time_def test_run_def to_double_def zero_harness_def)
  with C10_strict_comparisons_and_ties [of zero_harness, THEN conjunct2, THEN conjunct2,
      THEN conjunct2, THEN conjunct2, THEN conjunct2, THEN conjunct1, rule_format,
      of "(1, 1, 1)" sweep_init]
  show ?thesis by (simp add: sweep_init_def)
qed

end

